theory Spec2Isabelle
  imports Complex_Main
begin

section \<open>Data model of the reset orchestrator\<close>

text \<open>
  The development embeds \<^verbatim>\<open>scripts/reset-orchestrator.py\<close> of the
  cyber-range-design skill. Python enums are datatypes, dataclasses are records,
  \<^verbatim>\<open>Optional[T]\<close> is \<open>T option\<close>, \<^verbatim>\<open>datetime\<close> values are
  readings of a clock (natural numbers).
\<close>

datatype ResetLevel = VM | TEAM | ZONE | FULL

datatype ResetAction = SNAPSHOT_REVERT | POWER_CYCLE | CHECKPOINT_RESTORE | REBUILD

text \<open>
  \<^verbatim>\<open>ResetTask\<close>. The field \<open>vm_name\<close> is filled from
  \<^verbatim>\<open>vm.get('name')\<close>, which is \<^verbatim>\<open>None\<close> for a VM
  descriptor without a name, hence the option. \<open>status\<close> is a Python string.
\<close>

record ResetTask =
  vm_name :: "string option"
  action :: ResetAction
  snapshot_name :: "string option"
  status :: string
  start_time :: "nat option"
  end_time :: "nat option"
  error :: "string option"

text \<open>
  \<^verbatim>\<open>ResetOperation\<close>. Its fields \<^verbatim>\<open>action\<close>,
  \<^verbatim>\<open>start_time\<close> and \<^verbatim>\<open>end_time\<close> carry the prefix
  \<open>op_\<close>, since the task record owns the plain names.
\<close>

record ResetOperation =
  operation_id :: string
  level :: ResetLevel
  op_action :: ResetAction
  tasks :: "ResetTask list"
  op_start_time :: "nat option"
  op_end_time :: "nat option"

subsection \<open>Derived status and progress\<close>

text \<open>
  \<^verbatim>\<open>any(t.status == v for t in self.tasks)\<close> and
  \<^verbatim>\<open>all(t.status == v for t in self.tasks)\<close>, as the loops they are.
\<close>

primrec any_status :: "string \<Rightarrow> ResetTask list \<Rightarrow> bool" where
  "any_status v [] = False"
| "any_status v (t # ts) = (if status t = v then True else any_status v ts)"

primrec all_status :: "string \<Rightarrow> ResetTask list \<Rightarrow> bool" where
  "all_status v [] = True"
| "all_status v (t # ts) = (if status t = v then all_status v ts else False)"

text \<open>The property \<^verbatim>\<open>ResetOperation.status\<close>.\<close>

definition operation_status :: "ResetOperation \<Rightarrow> string" where
  "operation_status opn =
     (if tasks opn = [] then ''empty''
      else if any_status ''failed'' (tasks opn) then ''failed''
      else if all_status ''completed'' (tasks opn) then ''completed''
      else if any_status ''running'' (tasks opn) then ''running''
      else ''pending'')"

text \<open>
  \<^verbatim>\<open>sum(1 for t in self.tasks if t.status == "completed")\<close>.
\<close>

primrec count_status :: "string \<Rightarrow> ResetTask list \<Rightarrow> nat" where
  "count_status v [] = 0"
| "count_status v (t # ts) = (if status t = v then 1 else 0) + count_status v ts"

text \<open>
  The property \<^verbatim>\<open>ResetOperation.progress\<close>. Python computes
  \<^verbatim>\<open>completed / len(self.tasks) * 100\<close> in floating point; the model
  keeps the exact rational, which is all the claims about percentages need.
\<close>

definition operation_progress :: "ResetOperation \<Rightarrow> rat" where
  "operation_progress opn =
     (if tasks opn = [] then 0
      else of_nat (count_status ''completed'' (tasks opn)) / of_nat (length (tasks opn)) * 100)"

section \<open>Range topology and the planner\<close>

text \<open>
  The configuration is the parsed YAML file. \<^verbatim>\<open>config.get('zones', {}).items()\<close>
  enumerates the zones in insertion order, so the mapping is an association list;
  \<^verbatim>\<open>zone_config.get('vms', [])\<close> is the zone's list of VM descriptors, and
  \<^verbatim>\<open>vm.get('name')\<close>, \<^verbatim>\<open>vm.get('team')\<close> are optional keys.
  \<open>platform_type\<close> is \<^verbatim>\<open>config['platform']['type']\<close> when present.
\<close>

record vm_config =
  name :: "string option"
  team :: "int option"

record config =
  zones :: "(string \<times> vm_config list) list"
  platform_type :: "string option"

text \<open>The dictionaries appended to \<^verbatim>\<open>vms_to_reset\<close>.\<close>

record vm_entry =
  entry_name :: "string option"
  entry_zone :: string
  entry_team :: "int option"

text \<open>Python truthiness of an optional string and of an optional integer.\<close>

definition truthy_str :: "string option \<Rightarrow> bool" where
  "truthy_str x = (case x of None \<Rightarrow> False | Some v \<Rightarrow> v \<noteq> [])"

definition truthy_int :: "int option \<Rightarrow> bool" where
  "truthy_int x = (case x of None \<Rightarrow> False | Some v \<Rightarrow> v \<noteq> 0)"

text \<open>
  The inner loop of \<^verbatim>\<open>plan_reset\<close>, over the VMs of one zone; \<open>acc\<close> is
  \<^verbatim>\<open>vms_to_reset\<close>.
\<close>

primrec collect_vms ::
  "ResetLevel \<Rightarrow> int option \<Rightarrow> string option \<Rightarrow> string \<Rightarrow> vm_config list \<Rightarrow> vm_entry list \<Rightarrow> vm_entry list" where
  "collect_vms lvl team_f vm_f zone_name [] acc = acc"
| "collect_vms lvl team_f vm_f zone_name (vm # vms) acc =
     (if lvl = VM \<and> name vm \<noteq> vm_f then collect_vms lvl team_f vm_f zone_name vms acc
      else if lvl = TEAM \<and> truthy_int team_f \<and> team vm \<noteq> team_f
        then collect_vms lvl team_f vm_f zone_name vms acc
      else collect_vms lvl team_f vm_f zone_name vms
             (acc @ [\<lparr>entry_name = name vm, entry_zone = zone_name, entry_team = team vm\<rparr>]))"

text \<open>The outer loop, over the zones.\<close>

fun collect_zones ::
  "ResetLevel \<Rightarrow> string option \<Rightarrow> int option \<Rightarrow> string option \<Rightarrow> (string \<times> vm_config list) list
     \<Rightarrow> vm_entry list \<Rightarrow> vm_entry list" where
  "collect_zones lvl zone_f team_f vm_f [] acc = acc"
| "collect_zones lvl zone_f team_f vm_f ((zone_name, zone_config) # zs) acc =
     (if lvl = ZONE \<and> truthy_str zone_f \<and> Some zone_name \<noteq> zone_f
        then collect_zones lvl zone_f team_f vm_f zs acc
      else collect_zones lvl zone_f team_f vm_f zs
             (collect_vms lvl team_f vm_f zone_name zone_config acc))"

text \<open>The value of \<^verbatim>\<open>vms_to_reset\<close> after both loops: the resolved scope.\<close>

definition vms_to_reset ::
  "config \<Rightarrow> ResetLevel \<Rightarrow> string option \<Rightarrow> int option \<Rightarrow> string option \<Rightarrow> vm_entry list" where
  "vms_to_reset cfg lvl zone_f team_f vm_f = collect_zones lvl zone_f team_f vm_f (zones cfg) []"

text \<open>
  \<^verbatim>\<open>ResetTask(vm_name=vm['name'], action=action, snapshot_name=snapshot_name)\<close>;
  the other fields take the dataclass defaults.
\<close>

definition new_task :: "ResetAction \<Rightarrow> string option \<Rightarrow> vm_entry \<Rightarrow> ResetTask" where
  "new_task act snap e =
     \<lparr>vm_name = entry_name e, action = act, snapshot_name = snap, status = ''pending'',
      start_time = None, end_time = None, error = None\<rparr>"

text \<open>
  \<^verbatim>\<open>ResetOrchestrator.plan_reset\<close>. \<open>oid\<close> is the operation id, the
  formatted reading of the clock at plan time. The function has no
  \<^verbatim>\<open>raise\<close>: it returns an operation for every combination of arguments.
\<close>

definition plan_reset ::
  "config \<Rightarrow> string \<Rightarrow> ResetLevel \<Rightarrow> ResetAction \<Rightarrow> string option \<Rightarrow> string option \<Rightarrow> int option
     \<Rightarrow> string option \<Rightarrow> ResetOperation" where
  "plan_reset cfg oid lvl act snap zone_f team_f vm_f =
     \<lparr>operation_id = oid, level = lvl, op_action = act,
      tasks = map (new_task act snap) (vms_to_reset cfg lvl zone_f team_f vm_f),
      op_start_time = None, op_end_time = None\<rparr>"

text \<open>Every VM of the topology, in enumeration order, as the planner would record it.\<close>

definition all_vms :: "config \<Rightarrow> vm_entry list" where
  "all_vms cfg =
     concat (map (\<lambda>(zone_name, zone_config).
        map (\<lambda>vm. \<lparr>entry_name = name vm, entry_zone = zone_name, entry_team = team vm\<rparr>) zone_config)
       (zones cfg))"

subsection \<open>The loops' filters, named\<close>

text \<open>
  The record the planner appends for a VM of a zone, and the conditions under which
  neither \<^verbatim>\<open>continue\<close> of the inner loop, respectively the one of the outer loop,
  is taken. They serve to state what the loops compute.
\<close>

definition entry_of :: "string \<Rightarrow> vm_config \<Rightarrow> vm_entry" where
  "entry_of zn = (\<lambda>vm. \<lparr>entry_name = name vm, entry_zone = zn, entry_team = team vm\<rparr>)"

definition keeps_vm :: "ResetLevel \<Rightarrow> int option \<Rightarrow> string option \<Rightarrow> vm_config \<Rightarrow> bool" where
  "keeps_vm lvl team_f vm_f = (\<lambda>vm.
     \<not> (lvl = VM \<and> name vm \<noteq> vm_f) \<and> \<not> (lvl = TEAM \<and> truthy_int team_f \<and> team vm \<noteq> team_f))"

definition keeps_zone :: "ResetLevel \<Rightarrow> string option \<Rightarrow> string \<Rightarrow> bool" where
  "keeps_zone lvl zone_f zn \<longleftrightarrow> \<not> (lvl = ZONE \<and> truthy_str zone_f \<and> Some zn \<noteq> zone_f)"

section \<open>The executor\<close>

subsection \<open>Adapters\<close>

text \<open>
  The two mutating calls of a hypervisor adapter, with the arguments the executor
  passes. What a call does is outside the program: an adapter is an oracle that tells,
  for the call made on behalf of the task at a given position, whether it returns
  (\<open>None\<close>) or raises an exception, of which the executor keeps \<^verbatim>\<open>str(e)\<close>.
  The position is an argument because the backend may answer two equal calls
  differently. The exceptions are those that \<^verbatim>\<open>except Exception\<close> catches, as the
  adapters of the source raise them (\<^verbatim>\<open>ValueError\<close>, \<^verbatim>\<open>RuntimeError\<close>, errors of
  the backend's library); the source has no cancellation of a running batch.
\<close>

datatype adapter_call =
  revert_snapshot "string option" "string option"
| power_cycle "string option"

type_synonym adapter = "nat \<Rightarrow> adapter_call \<Rightarrow> string option"

text \<open>\<^verbatim>\<open>str\<close> of a member of the enum, as the f-string of the error message prints it.\<close>

fun str_ResetAction :: "ResetAction \<Rightarrow> string" where
  "str_ResetAction SNAPSHOT_REVERT = ''ResetAction.SNAPSHOT_REVERT''"
| "str_ResetAction POWER_CYCLE = ''ResetAction.POWER_CYCLE''"
| "str_ResetAction CHECKPOINT_RESTORE = ''ResetAction.CHECKPOINT_RESTORE''"
| "str_ResetAction REBUILD = ''ResetAction.REBUILD''"

text \<open>
  The \<^verbatim>\<open>try\<close> block of \<^verbatim>\<open>execute_task\<close> up to its first suspension:
  either an adapter call is awaited, or an exception is raised on the spot (an action
  that is neither of the two supported ones; an attribute looked up on
  \<^verbatim>\<open>self.adapter\<close> when it is still \<^verbatim>\<open>None\<close>).
\<close>

datatype dispatched = Call adapter_call | Raise string

definition no_attribute :: "string \<Rightarrow> string" where
  "no_attribute attr =
     [CHR 0x27] @ ''NoneType'' @ [CHR 0x27] @ '' object has no attribute '' @ [CHR 0x27] @ attr @ [CHR 0x27]"

definition dispatch :: "adapter option \<Rightarrow> ResetTask \<Rightarrow> dispatched" where
  "dispatch ad t =
     (if action t = SNAPSHOT_REVERT then
        (case ad of
           None \<Rightarrow> Raise (no_attribute ''revert_snapshot'')
         | Some f \<Rightarrow> Call (revert_snapshot (vm_name t) (snapshot_name t)))
      else if action t = POWER_CYCLE then
        (case ad of
           None \<Rightarrow> Raise (no_attribute ''power_cycle'')
         | Some f \<Rightarrow> Call (power_cycle (vm_name t)))
      else Raise (''Unsupported action: '' @ str_ResetAction (action t)))"

subsection \<open>Coroutines under the event loop\<close>

text \<open>
  \<^verbatim>\<open>asyncio.gather\<close> runs one coroutine \<^verbatim>\<open>execute_task(t)\<close> per task on a
  single thread. A coroutine is suspended at two places only: waiting for the semaphore,
  and awaiting the adapter call. Its frame is therefore in one of three states.
\<close>

datatype frame = Waiting | Awaiting adapter_call | Done

text \<open>
  The event loop's choices and the clock are outside the program: \<open>pick\<close> chooses, at
  each turn, which runnable coroutine goes on, and \<open>clock\<close> gives the successive
  readings of \<^verbatim>\<open>datetime.now()\<close>.
\<close>

record scheduler =
  pick :: "nat \<Rightarrow> nat"
  clock :: "nat \<Rightarrow> nat"

text \<open>
  The state during \<^verbatim>\<open>execute\<close>: \<^verbatim>\<open>self.operation\<close>, the coroutine frames, the
  semaphore's counter, the adapter calls dispatched so far, the operations handed to the
  progress callback, and the numbers of clock readings and scheduling turns so far.
\<close>

record exec_state =
  operation :: ResetOperation
  frames :: "frame list"
  semaphore :: nat
  calls :: "(nat \<times> adapter_call) list"
  reported :: "ResetOperation list"
  ticks :: nat
  turns :: nat

text \<open>
  Calling a method of \<^verbatim>\<open>self.adapter\<close>: the adapter's answer, or the
  \<^verbatim>\<open>AttributeError\<close> of a call on \<^verbatim>\<open>None\<close>.
\<close>

fun method_name :: "adapter_call \<Rightarrow> string" where
  "method_name (revert_snapshot v n) = ''revert_snapshot''"
| "method_name (power_cycle v) = ''power_cycle''"

definition invoke :: "adapter option \<Rightarrow> nat \<Rightarrow> adapter_call \<Rightarrow> string option" where
  "invoke ad i c = (case ad of None \<Rightarrow> Some (no_attribute (method_name c)) | Some f \<Rightarrow> f i c)"

text \<open>
  The writes to a task. Before the \<^verbatim>\<open>try\<close>: \<^verbatim>\<open>status = "running"\<close> and the start
  time. After it: \<^verbatim>\<open>status = "completed"\<close>, or in the \<^verbatim>\<open>except\<close> branch
  \<^verbatim>\<open>status = "failed"\<close> and \<^verbatim>\<open>error = str(e)\<close>; then the \<^verbatim>\<open>finally\<close> sets the
  end time.
\<close>

definition start_task :: "nat \<Rightarrow> ResetTask \<Rightarrow> ResetTask" where
  "start_task now t = t\<lparr>status := ''running'', start_time := Some now\<rparr>"

definition finish_task :: "string option \<Rightarrow> nat \<Rightarrow> ResetTask \<Rightarrow> ResetTask" where
  "finish_task raised now t =
     (case raised of
        None \<Rightarrow> t\<lparr>status := ''completed''\<rparr>
      | Some m \<Rightarrow> t\<lparr>status := ''failed'', error := Some m\<rparr>)\<lparr>end_time := Some now\<rparr>"

text \<open>
  From the return (or the exception) of the awaited call to the end of the coroutine:
  the success or the \<^verbatim>\<open>except\<close> branch, the \<^verbatim>\<open>finally\<close>, the callback, and the
  release of the semaphore. There is no suspension in between, so it is one step.
\<close>

definition settle :: "scheduler \<Rightarrow> bool \<Rightarrow> nat \<Rightarrow> string option \<Rightarrow> exec_state \<Rightarrow> exec_state" where
  "settle sch cb i raised s =
     (let opn = (operation s)\<lparr>tasks := (tasks (operation s))
                   [i := finish_task raised (clock sch (ticks s)) (tasks (operation s) ! i)]\<rparr>
      in s\<lparr>operation := opn,
           frames := (frames s)[i := Done],
           semaphore := semaphore s + 1,
           reported := (if cb then reported s @ [opn] else reported s),
           ticks := Suc (ticks s)\<rparr>)"

text \<open>
  A waiting coroutine acquires the semaphore and runs to its first suspension: the task
  is marked running, then either the adapter call is dispatched or the exception raised
  on the spot is handled at once.
\<close>

definition admit :: "scheduler \<Rightarrow> adapter option \<Rightarrow> bool \<Rightarrow> nat \<Rightarrow> exec_state \<Rightarrow> exec_state" where
  "admit sch ad cb i s =
     (let t = start_task (clock sch (ticks s)) (tasks (operation s) ! i);
          s1 = s\<lparr>operation := (operation s)\<lparr>tasks := (tasks (operation s))[i := t]\<rparr>,
                 semaphore := semaphore s - 1,
                 ticks := Suc (ticks s)\<rparr>
      in case dispatch ad t of
           Call c \<Rightarrow> s1\<lparr>frames := (frames s1)[i := Awaiting c], calls := calls s1 @ [(i, c)]\<rparr>
         | Raise m \<Rightarrow> settle sch cb i (Some m) s1)"

text \<open>
  The awaited adapter call comes back, with the outcome the adapter gives it. Only a
  coroutine that awaits a call can be resumed.
\<close>

definition resume :: "scheduler \<Rightarrow> adapter option \<Rightarrow> bool \<Rightarrow> nat \<Rightarrow> exec_state \<Rightarrow> exec_state" where
  "resume sch ad cb i s =
     (case frames s ! i of
        Awaiting c \<Rightarrow> settle sch cb i (invoke ad i c) s
      | _ \<Rightarrow> s)"

datatype event = Admit nat | Resume nat

fun fire :: "scheduler \<Rightarrow> adapter option \<Rightarrow> bool \<Rightarrow> event \<Rightarrow> exec_state \<Rightarrow> exec_state" where
  "fire sch ad cb (Admit i) s = admit sch ad cb i s"
| "fire sch ad cb (Resume i) s = resume sch ad cb i s"

fun is_awaiting :: "frame \<Rightarrow> bool" where
  "is_awaiting (Awaiting c) = True"
| "is_awaiting f = False"

text \<open>
  The coroutines that can go on: a waiting one when the semaphore has a free slot, and
  any one whose adapter call is in flight.
\<close>

definition enabled :: "exec_state \<Rightarrow> event list" where
  "enabled s =
     map Admit (filter (\<lambda>i. frames s ! i = Waiting \<and> 0 < semaphore s) [0..<length (frames s)]) @
     map Resume (filter (\<lambda>i. is_awaiting (frames s ! i)) [0..<length (frames s)])"

fun frame_weight :: "frame \<Rightarrow> nat" where
  "frame_weight Waiting = 2"
| "frame_weight (Awaiting c) = 1"
| "frame_weight Done = 0"

definition weight :: "exec_state \<Rightarrow> nat" where
  "weight s = sum_list (map frame_weight (frames s))"

text \<open>
  The run of the event loop from a state on, as the list of the states it goes through.
  It ends when no coroutine can go on: all are done (\<^verbatim>\<open>gather\<close> returns), or the
  remaining ones wait for a semaphore that nobody will release. At each turn the
  scheduler picks any of the coroutines that can go on, so the runs of the model include
  every order in which waiting coroutines are admitted and adapter calls come back;
  a property proved for every scheduler holds for the orders \<^verbatim>\<open>asyncio\<close> produces.
\<close>

function gather_trace :: "scheduler \<Rightarrow> adapter option \<Rightarrow> bool \<Rightarrow> exec_state \<Rightarrow> exec_state list" where
  "gather_trace sch ad cb s =
     (case enabled s of
        [] \<Rightarrow> [s]
      | e # es \<Rightarrow>
          s # gather_trace sch ad cb
                (fire sch ad cb ((e # es) ! (pick sch (turns s) mod length (e # es)))
                   (s\<lparr>turns := Suc (turns s)\<rparr>)))"
  by pat_completeness auto

lemma sum_list_weight_update:
  "i < length fs \<Longrightarrow> frame_weight f < frame_weight (fs ! i) \<Longrightarrow>
     sum_list (map frame_weight (fs[i := f])) < sum_list (map frame_weight fs)"
proof (induction fs arbitrary: i)
  case Nil
  then show ?case by simp
next
  case (Cons a fs)
  then show ?case by (cases i) auto
qed

lemma settle_frames: "frames (settle sch cb i r s) = (frames s)[i := Done]"
  by (simp add: settle_def Let_def)

lemma admit_frames:
  "frames (admit sch ad cb i s) =
     (frames s)[i := (case dispatch ad (start_task (clock sch (ticks s)) (tasks (operation s) ! i)) of
                        Call c \<Rightarrow> Awaiting c | Raise m \<Rightarrow> Done)]"
  by (simp add: admit_def Let_def settle_frames split: dispatched.splits)

lemma resume_frames:
  "frames s ! i = Awaiting c \<Longrightarrow> frames (resume sch ad cb i s) = (frames s)[i := Done]"
  by (simp add: resume_def settle_frames)

lemma enabled_cases:
  "e \<in> set (enabled s) \<Longrightarrow>
     (\<exists>i. e = Admit i \<and> i < length (frames s) \<and> frames s ! i = Waiting \<and> 0 < semaphore s) \<or>
     (\<exists>i c. e = Resume i \<and> i < length (frames s) \<and> frames s ! i = Awaiting c)"
proof -
  assume "e \<in> set (enabled s)"
  then consider i where "e = Admit i" "i < length (frames s)" "frames s ! i = Waiting" "0 < semaphore s"
    | i where "e = Resume i" "i < length (frames s)" "is_awaiting (frames s ! i)"
    by (auto simp: enabled_def)
  then show ?thesis
  proof cases
    case 1
    then show ?thesis by blast
  next
    case 2
    then show ?thesis by (cases "frames s ! i") auto
  qed
qed

lemma fire_weight:
  assumes "e \<in> set (enabled s)" and "frames s' = frames s"
  shows "weight (fire sch ad cb e s') < weight s"
proof -
  from enabled_cases[OF assms(1)] show ?thesis
  proof (elim disjE exE conjE)
    fix i
    assume "e = Admit i" "i < length (frames s)" "frames s ! i = Waiting" "0 < semaphore s"
    then show ?thesis
      using assms(2)
      by (auto simp: weight_def admit_frames intro!: sum_list_weight_update split: dispatched.splits)
  next
    fix i c
    assume "e = Resume i" "i < length (frames s)" "frames s ! i = Awaiting c"
    then show ?thesis
      using assms(2)
      by (auto simp: weight_def resume_frames intro!: sum_list_weight_update)
  qed
qed

termination gather_trace
proof (relation "measure (\<lambda>(sch, ad, cb, s). weight s)")
  show "wf (measure (\<lambda>(sch, ad, cb, s). weight s))" by simp
next
  fix sch :: scheduler and ad :: "adapter option" and cb :: bool and s :: exec_state
    and e :: event and es :: "event list"
  assume en: "enabled s = e # es"
  have "(e # es) ! (pick sch (turns s) mod length (e # es)) \<in> set (enabled s)"
    unfolding en by (rule nth_mem) simp
  then have "weight (fire sch ad cb ((e # es) ! (pick sch (turns s) mod length (e # es)))
                 (s\<lparr>turns := Suc (turns s)\<rparr>)) < weight s"
    by (rule fire_weight) simp
  then show "((sch, ad, cb,
       fire sch ad cb ((e # es) ! (pick sch (turns s) mod length (e # es)))
         (s\<lparr>turns := Suc (turns s)\<rparr>)), (sch, ad, cb, s))
      \<in> measure (\<lambda>(sch, ad, cb, s). weight s)"
    by simp
qed

declare gather_trace.simps [simp del]

subsection \<open>execute\<close>

text \<open>
  What a call may do: return a value, let an exception (of which the message is kept)
  reach its caller, or never return.
\<close>

datatype 'a outcome = Returns 'a | Raises string | Hangs

text \<open>
  The state when \<^verbatim>\<open>gather\<close> starts: the start time of the operation has been read
  (reading \<open>0\<close> of the clock), the semaphore holds \<open>parallel\<close> slots, every coroutine is
  about to ask for one.
\<close>

definition initial_state :: "scheduler \<Rightarrow> ResetOperation \<Rightarrow> nat \<Rightarrow> exec_state" where
  "initial_state sch opn parallel =
     \<lparr>operation = opn\<lparr>op_start_time := Some (clock sch 0)\<rparr>,
      frames = replicate (length (tasks opn)) Waiting,
      semaphore = parallel, calls = [], reported = [], ticks = 1, turns = 0\<rparr>"

definition execute_trace ::
  "scheduler \<Rightarrow> adapter option \<Rightarrow> ResetOperation \<Rightarrow> nat \<Rightarrow> bool \<Rightarrow> exec_state list" where
  "execute_trace sch ad opn parallel cb = gather_trace sch ad cb (initial_state sch opn parallel)"

text \<open>
  \<^verbatim>\<open>ResetOrchestrator.execute\<close>. \<open>self_operation\<close> is \<^verbatim>\<open>self.operation\<close>,
  \<open>ad\<close> is \<^verbatim>\<open>self.adapter\<close>, \<open>cb\<close> tells whether a progress callback was given.
  \<^verbatim>\<open>asyncio.Semaphore\<close> refuses a negative value with a \<^verbatim>\<open>ValueError\<close>.
  The call returns when \<^verbatim>\<open>gather\<close> does, that is when every coroutine is done.
\<close>

definition execute ::
  "scheduler \<Rightarrow> adapter option \<Rightarrow> ResetOperation option \<Rightarrow> int \<Rightarrow> bool \<Rightarrow> ResetOperation outcome" where
  "execute sch ad self_operation parallel cb =
     (case self_operation of
        None \<Rightarrow> Raises ''No operation planned - call plan_reset first''
      | Some opn \<Rightarrow>
          if parallel < 0 then Raises ''Semaphore initial value must be >= 0''
          else
            (let s = last (execute_trace sch ad opn (nat parallel) cb)
             in if list_all (\<lambda>f. f = Done) (frames s)
                then Returns ((operation s)\<lparr>op_end_time := Some (clock sch (ticks s))\<rparr>)
                else Hangs))"

section \<open>The command line\<close>

text \<open>
  The namespace \<^verbatim>\<open>parse_args\<close> returns. \<^verbatim>\<open>--level\<close> and \<^verbatim>\<open>--action\<close> are
  strings that \<^verbatim>\<open>argparse\<close> checks against their \<^verbatim>\<open>choices\<close>.
\<close>

record args =
  arg_level :: string
  arg_action :: string
  arg_snapshot :: "string option"
  arg_zone :: "string option"
  arg_team :: "int option"
  arg_vm :: "string option"
  arg_parallel :: int
  arg_dry_run :: bool
  arg_yes :: bool

text \<open>\<^verbatim>\<open>ResetLevel(value)\<close> and \<^verbatim>\<open>ResetAction(value)\<close>: the member with that value.\<close>

definition ResetLevel_of :: "string \<Rightarrow> ResetLevel option" where
  "ResetLevel_of v =
     (if v = ''vm'' then Some VM else if v = ''team'' then Some TEAM
      else if v = ''zone'' then Some ZONE else if v = ''full'' then Some FULL else None)"

definition ResetAction_of :: "string \<Rightarrow> ResetAction option" where
  "ResetAction_of v =
     (if v = ''snapshot_revert'' then Some SNAPSHOT_REVERT
      else if v = ''power_cycle'' then Some POWER_CYCLE
      else if v = ''checkpoint_restore'' then Some CHECKPOINT_RESTORE
      else if v = ''rebuild'' then Some REBUILD else None)"

text \<open>
  What \<^verbatim>\<open>main\<close> depends on outside the program: the configuration file as loaded
  (\<open>None\<close> when loading raises), the operator's answer to the confirmation prompt
  (\<open>None\<close> at end of input), whether connecting to or disconnecting from a real backend
  raises, the outcomes of the backend's calls, the event loop and the clock, and the
  formatted time that becomes the operation id.
\<close>

record environment =
  config_file :: "config option"
  answer :: "string option"
  connect_error :: "string option"
  disconnect_error :: "string option"
  backend :: adapter
  event_loop :: scheduler
  timestamp :: string

datatype adapter_kind = VMwareAdapter | ProxmoxAdapter | DryRunAdapter

text \<open>
  \<^verbatim>\<open>initialize_adapter\<close>: the adapter class chosen, unless the platform is not
  supported or \<^verbatim>\<open>connect\<close> raises. The dry-run adapter's \<^verbatim>\<open>connect\<close> only logs.
\<close>

definition initialize_adapter :: "environment \<Rightarrow> config \<Rightarrow> bool \<Rightarrow> string + adapter_kind" where
  "initialize_adapter env cfg dry_run =
     (if dry_run then Inr DryRunAdapter
      else
        (let ptype = (case platform_type cfg of None \<Rightarrow> ''vmware'' | Some v \<Rightarrow> v) in
         if ptype = ''vmware'' then
           (case connect_error env of Some m \<Rightarrow> Inl m | None \<Rightarrow> Inr VMwareAdapter)
         else if ptype = ''proxmox'' then
           (case connect_error env of Some m \<Rightarrow> Inl m | None \<Rightarrow> Inr ProxmoxAdapter)
         else Inl (''Unsupported platform: '' @ ptype)))"

text \<open>
  The calls of the chosen adapter: the dry-run adapter sleeps and returns
  \<^verbatim>\<open>True\<close>; the real ones answer as the backend does.
\<close>

definition adapter_calls :: "environment \<Rightarrow> adapter_kind \<Rightarrow> adapter" where
  "adapter_calls env kind = (case kind of DryRunAdapter \<Rightarrow> (\<lambda>i c. None) | _ \<Rightarrow> backend env)"

text \<open>
  \<^verbatim>\<open>close\<close>: only the VMware adapter calls into its library on disconnect; the
  other two log a line.
\<close>

definition close :: "environment \<Rightarrow> adapter_kind \<Rightarrow> string option" where
  "close env kind = (case kind of VMwareAdapter \<Rightarrow> disconnect_error env | _ \<Rightarrow> None)"

text \<open>
  The end of \<^verbatim>\<open>main\<close>: \<^verbatim>\<open>parser.error\<close> leaves the process with a usage
  message before anything is planned; otherwise \<^verbatim>\<open>main\<close> returns the exit status,
  here with the operation the orchestrator holds at that moment; or \<^verbatim>\<open>execute\<close>
  never returns.
\<close>

datatype main_result = ParserError string | Exit int "ResetOperation option" | NoExit

definition main :: "environment \<Rightarrow> args \<Rightarrow> main_result" where
  "main env a =
     (case (ResetLevel_of (arg_level a), ResetAction_of (arg_action a)) of
        (Some lvl, Some act) \<Rightarrow>
          if arg_action a \<noteq> ''snapshot_revert'' \<and> arg_action a \<noteq> ''power_cycle''
            then ParserError ''argument --action/-a: invalid choice''
          else if act = SNAPSHOT_REVERT \<and> \<not> truthy_str (arg_snapshot a)
            then ParserError ''--snapshot is required for snapshot_revert action''
          else if lvl = TEAM \<and> arg_team a = None
            then ParserError ''--team is required for team-level reset''
          else if lvl = ZONE \<and> \<not> truthy_str (arg_zone a)
            then ParserError ''--zone is required for zone-level reset''
          else if lvl = VM \<and> \<not> truthy_str (arg_vm a)
            then ParserError ''--vm is required for vm-level reset''
          else
            (case config_file env of
               None \<Rightarrow> Exit 2 None
             | Some cfg \<Rightarrow>
                 (let opn = plan_reset cfg (timestamp env) lvl act (arg_snapshot a) (arg_zone a)
                              (arg_team a) (arg_vm a)
                  in if tasks opn = [] then Exit 1 (Some opn)
                     else if \<not> arg_yes a \<and> \<not> arg_dry_run a \<and> answer env = None
                       then Exit 2 (Some opn)
                     else if \<not> arg_yes a \<and> \<not> arg_dry_run a \<and> answer env \<noteq> Some ''y''
                               \<and> answer env \<noteq> Some ''Y''
                       then Exit 0 (Some opn)
                     else
                       (case initialize_adapter env cfg (arg_dry_run a) of
                          Inl m \<Rightarrow> Exit 2 (Some opn)
                        | Inr kind \<Rightarrow>
                            (case execute (event_loop env) (Some (adapter_calls env kind)) (Some opn)
                                    (arg_parallel a) True of
                               Raises m \<Rightarrow>
                                 Exit 2 (Some (opn\<lparr>op_start_time := Some (clock (event_loop env) 0)\<rparr>))
                             | Hangs \<Rightarrow> NoExit
                             | Returns done_op \<Rightarrow>
                                 (case close env kind of
                                    Some m \<Rightarrow> Exit 2 (Some done_op)
                                  | None \<Rightarrow>
                                      Exit (if operation_status done_op = ''completed'' then 0 else 1)
                                        (Some done_op))))))
      | _ \<Rightarrow> ParserError ''invalid choice'')"

text \<open>
  The operation \<^verbatim>\<open>main\<close> plans, when it gets as far as planning: the arguments pass
  \<^verbatim>\<open>argparse\<close> and the configuration loads.
\<close>

definition planned :: "environment \<Rightarrow> args \<Rightarrow> ResetOperation option" where
  "planned env a =
     (case (ResetLevel_of (arg_level a), ResetAction_of (arg_action a), config_file env) of
        (Some lvl, Some act, Some cfg) \<Rightarrow>
          Some (plan_reset cfg (timestamp env) lvl act (arg_snapshot a) (arg_zone a) (arg_team a)
                  (arg_vm a))
      | _ \<Rightarrow> None)"

text \<open>
  The operator declines the run: the confirmation prompt is shown, which takes a plan
  with at least one task and neither \<^verbatim>\<open>--yes\<close> nor \<^verbatim>\<open>--dry-run\<close>, and the answer
  is a line other than \<^verbatim>\<open>y\<close> or \<^verbatim>\<open>Y\<close>. A plan without tasks makes \<^verbatim>\<open>main\<close>
  return before the prompt, so it is never declined.
\<close>

definition declined :: "environment \<Rightarrow> args \<Rightarrow> bool" where
  "declined env a =
     (case planned env a of
        None \<Rightarrow> False
      | Some p \<Rightarrow>
          tasks p \<noteq> [] \<and> \<not> arg_yes a \<and> \<not> arg_dry_run a \<and> answer env \<noteq> None \<and>
          answer env \<noteq> Some ''y'' \<and> answer env \<noteq> Some ''Y'')"

section \<open>Invariants of an execution\<close>

text \<open>
  What the exception handling of \<^verbatim>\<open>execute_task\<close> will record for the task at position
  \<open>i\<close>: the message of the exception raised on the spot, or the outcome of the adapter
  call.
\<close>

definition task_raises :: "adapter option \<Rightarrow> nat \<Rightarrow> ResetTask \<Rightarrow> string option" where
  "task_raises ad i t = (case dispatch ad t of Raise m \<Rightarrow> Some m | Call c \<Rightarrow> invoke ad i c)"

text \<open>
  How the task \<open>t\<close> at position \<open>i\<close> relates, during \<^verbatim>\<open>execute\<close>, to the task \<open>t0\<close>
  it was when \<^verbatim>\<open>execute\<close> was called, given the frame \<open>f\<close> of its coroutine: untouched
  while the coroutine waits, running while the call is in flight, and settled according
  to the outcome once the coroutine is done.
\<close>

definition related :: "adapter option \<Rightarrow> nat \<Rightarrow> ResetTask \<Rightarrow> frame \<Rightarrow> ResetTask \<Rightarrow> bool" where
  "related ad i t0 f t \<longleftrightarrow>
     vm_name t = vm_name t0 \<and> action t = action t0 \<and> snapshot_name t = snapshot_name t0 \<and>
     (case f of
        Waiting \<Rightarrow> t = t0
      | Awaiting c \<Rightarrow>
          dispatch ad t0 = Call c \<and> status t = ''running'' \<and> end_time t = end_time t0 \<and>
          error t = error t0
      | Done \<Rightarrow>
          end_time t \<noteq> None \<and>
          status t = (case task_raises ad i t0 of None \<Rightarrow> ''completed'' | Some m \<Rightarrow> ''failed'') \<and>
          error t = (case task_raises ad i t0 of None \<Rightarrow> error t0 | Some m \<Rightarrow> Some m))"

text \<open>
  The invariant of the event loop: one frame per task, every task related to what it was,
  every dispatched call recorded for a task that dispatches it, and the semaphore's
  counter plus the number of calls in flight equal to the limit.
\<close>

definition tracks :: "adapter option \<Rightarrow> ResetTask list \<Rightarrow> nat \<Rightarrow> exec_state \<Rightarrow> bool" where
  "tracks ad ts0 parallel s \<longleftrightarrow>
     length (frames s) = length ts0 \<and> length (tasks (operation s)) = length ts0 \<and>
     (\<forall>i < length ts0. related ad i (ts0 ! i) (frames s ! i) (tasks (operation s) ! i)) \<and>
     (\<forall>(i, c) \<in> set (calls s). i < length ts0 \<and> dispatch ad (ts0 ! i) = Call c) \<and>
     semaphore s + length (filter is_awaiting (frames s)) = parallel"

text \<open>
  The invariant of a task as the data model words it: the end time is set exactly when
  the status is \<open>completed\<close> or \<open>failed\<close>, and the error is non-empty exactly when the
  status is \<open>failed\<close>. The field \<^verbatim>\<open>error\<close> is an optional string; it is non-empty when
  it holds a string other than the empty one, which is the test \<^verbatim>\<open>if task.error:\<close> of
  the report.
\<close>

definition task_invariant :: "ResetTask \<Rightarrow> bool" where
  "task_invariant t \<longleftrightarrow>
     ((end_time t \<noteq> None) = (status t = ''completed'' \<or> status t = ''failed'')) \<and>
     (truthy_str (error t) = (status t = ''failed''))"

text \<open>
  The same with the error being set (not \<^verbatim>\<open>None\<close>) in the place of the error being
  non-empty.
\<close>

definition task_invariant_set :: "ResetTask \<Rightarrow> bool" where
  "task_invariant_set t \<longleftrightarrow>
     ((end_time t \<noteq> None) = (status t = ''completed'' \<or> status t = ''failed'')) \<and>
     ((error t \<noteq> None) = (status t = ''failed''))"

text \<open>
  Every exception that a call of the adapter raises has a message: \<^verbatim>\<open>str(e)\<close> is not
  the empty string.
\<close>

definition messages_nonempty :: "adapter option \<Rightarrow> bool" where
  "messages_nonempty ad \<longleftrightarrow> (\<forall>i c. invoke ad i c \<noteq> Some [])"

text \<open>
  What holds of a task under a given adapter: the invariant with the error being set,
  and the invariant as worded when the adapter's exceptions all have a message.
\<close>

definition task_sound :: "adapter option \<Rightarrow> ResetTask \<Rightarrow> bool" where
  "task_sound ad t \<longleftrightarrow> task_invariant_set t \<and> (messages_nonempty ad \<longrightarrow> task_invariant t)"

text \<open>
  The invariant of the event loop for an operation fresh from the planner: moreover every
  task, and every task of an operation handed to the progress callback, is sound.
\<close>

definition consistent :: "adapter option \<Rightarrow> ResetTask list \<Rightarrow> nat \<Rightarrow> exec_state \<Rightarrow> bool" where
  "consistent ad ts0 parallel s \<longleftrightarrow>
     tracks ad ts0 parallel s \<and>
     (\<forall>t \<in> set (tasks (operation s)). task_sound ad t) \<and>
     (\<forall>seen \<in> set (reported s). \<forall>t \<in> set (tasks seen). task_sound ad t)"

section \<open>Example inputs\<close>

text \<open>
  Concrete schedulers, topologies and runs at which the theorems below are evaluated.
  \<open>unit_scheduler\<close> always lets the first runnable coroutine go on and reads the clock
  as \<open>0, 1, 2, \<dots>\<close>.
\<close>

definition unit_scheduler :: scheduler where
  "unit_scheduler = \<lparr>pick = (\<lambda>n. 0), clock = (\<lambda>n. n)\<rparr>"

definition blue_topology :: config where
  "blue_topology =
     \<lparr>zones = [(''blue'', [\<lparr>name = Some ''a'', team = Some 0\<rparr>, \<lparr>name = Some ''b'', team = Some 1\<rparr>])],
      platform_type = None\<rparr>"

definition twin_topology :: config where
  "twin_topology =
     \<lparr>zones = [(''blue'', [\<lparr>name = Some ''dc01'', team = Some 1\<rparr>]),
               (''red'', [\<lparr>name = Some ''dc01'', team = Some 2\<rparr>])],
      platform_type = None\<rparr>"

definition empty_operation :: ResetOperation where
  "empty_operation =
     \<lparr>operation_id = ''op'', level = VM, op_action = POWER_CYCLE, tasks = [],
      op_start_time = None, op_end_time = None\<rparr>"

definition dry_environment :: environment where
  "dry_environment =
     \<lparr>config_file = Some blue_topology, answer = None, connect_error = None,
      disconnect_error = None, backend = (\<lambda>i c. None), event_loop = unit_scheduler,
      timestamp = ''20260101-000000''\<rparr>"

definition ghost_args :: args where
  "ghost_args =
     \<lparr>arg_level = ''vm'', arg_action = ''power_cycle'', arg_snapshot = None, arg_zone = None,
      arg_team = None, arg_vm = Some ''ghost-vm'', arg_parallel = 5, arg_dry_run = True,
      arg_yes = False\<rparr>"

definition team_args :: args where
  "team_args =
     \<lparr>arg_level = ''team'', arg_action = ''snapshot_revert'', arg_snapshot = Some ''pre-ex'',
      arg_zone = None, arg_team = None, arg_vm = None, arg_parallel = 5, arg_dry_run = True,
      arg_yes = False\<rparr>"

definition full_args :: args where
  "full_args =
     \<lparr>arg_level = ''full'', arg_action = ''power_cycle'', arg_snapshot = None, arg_zone = None,
      arg_team = None, arg_vm = None, arg_parallel = 5, arg_dry_run = True, arg_yes = False\<rparr>"

definition team_zero_args :: args where
  "team_zero_args =
     \<lparr>arg_level = ''team'', arg_action = ''power_cycle'', arg_snapshot = None, arg_zone = None,
      arg_team = Some 0, arg_vm = None, arg_parallel = 5, arg_dry_run = True, arg_yes = False\<rparr>"

definition full_done :: ResetOperation where
  "full_done =
     \<lparr>operation_id = ''20260101-000000'', level = FULL, op_action = POWER_CYCLE,
      tasks = [\<lparr>vm_name = Some ''a'', action = POWER_CYCLE, snapshot_name = None,
                status = ''completed'', start_time = Some 1, end_time = Some 3, error = None\<rparr>,
               \<lparr>vm_name = Some ''b'', action = POWER_CYCLE, snapshot_name = None,
                status = ''completed'', start_time = Some 2, end_time = Some 4, error = None\<rparr>],
      op_start_time = Some 0, op_end_time = Some 5\<rparr>"

text \<open>
  An adapter whose call for the task at position \<open>1\<close> raises, the plan of a full reset of
  the zone \<open>blue\<close>, and two operations as \<^verbatim>\<open>execute\<close> returns them.
\<close>

definition flaky_adapter :: adapter where
  "flaky_adapter = (\<lambda>i c. if i = 1 then Some ''VM not found: b'' else None)"

definition silent_adapter :: adapter where
  "silent_adapter = (\<lambda>i c. Some [])"

definition decline_environment :: environment where
  "decline_environment =
     \<lparr>config_file = Some blue_topology, answer = Some ''n'', connect_error = None,
      disconnect_error = None, backend = (\<lambda>i c. None), event_loop = unit_scheduler,
      timestamp = ''20260101-000000''\<rparr>"

definition bare_ghost_args :: args where
  "bare_ghost_args =
     \<lparr>arg_level = ''vm'', arg_action = ''power_cycle'', arg_snapshot = None, arg_zone = None,
      arg_team = None, arg_vm = Some ''ghost-vm'', arg_parallel = 5, arg_dry_run = False,
      arg_yes = False\<rparr>"

definition ghost_plan :: ResetOperation where
  "ghost_plan =
     \<lparr>operation_id = ''20260101-000000'', level = VM, op_action = POWER_CYCLE, tasks = [],
      op_start_time = None, op_end_time = None\<rparr>"

definition silent_done :: ResetOperation where
  "silent_done =
     \<lparr>operation_id = ''op'', level = FULL, op_action = POWER_CYCLE,
      tasks = [\<lparr>vm_name = Some ''a'', action = POWER_CYCLE, snapshot_name = None,
                status = ''failed'', start_time = Some 1, end_time = Some 3, error = Some []\<rparr>,
               \<lparr>vm_name = Some ''b'', action = POWER_CYCLE, snapshot_name = None,
                status = ''failed'', start_time = Some 2, end_time = Some 4, error = Some []\<rparr>],
      op_start_time = Some 0, op_end_time = Some 5\<rparr>"

definition blue_plan :: "ResetAction \<Rightarrow> ResetOperation" where
  "blue_plan act = plan_reset blue_topology ''op'' FULL act None None None None"

definition flaky_done :: ResetOperation where
  "flaky_done =
     \<lparr>operation_id = ''op'', level = FULL, op_action = POWER_CYCLE,
      tasks = [\<lparr>vm_name = Some ''a'', action = POWER_CYCLE, snapshot_name = None,
                status = ''completed'', start_time = Some 1, end_time = Some 3, error = None\<rparr>,
               \<lparr>vm_name = Some ''b'', action = POWER_CYCLE, snapshot_name = None,
                status = ''failed'', start_time = Some 2, end_time = Some 4,
                error = Some ''VM not found: b''\<rparr>],
      op_start_time = Some 0, op_end_time = Some 5\<rparr>"

definition rebuild_done :: ResetOperation where
  "rebuild_done =
     \<lparr>operation_id = ''op'', level = FULL, op_action = REBUILD,
      tasks = [\<lparr>vm_name = Some ''a'', action = REBUILD, snapshot_name = None,
                status = ''failed'', start_time = Some 1, end_time = Some 2,
                error = Some ''Unsupported action: ResetAction.REBUILD''\<rparr>,
               \<lparr>vm_name = Some ''b'', action = REBUILD, snapshot_name = None,
                status = ''failed'', start_time = Some 3, end_time = Some 4,
                error = Some ''Unsupported action: ResetAction.REBUILD''\<rparr>],
      op_start_time = Some 0, op_end_time = Some 5\<rparr>"

section \<open>What the planner's loops compute\<close>

text \<open>
  Both loops append to their accumulator, so each is a filter followed by a map; for the
  scopes VM and TEAM the result is a filter of the list of all VMs.
\<close>

lemma collect_vms_Cons:
  "collect_vms lvl team_f vm_f zn (vm # vms) acc =
     (if keeps_vm lvl team_f vm_f vm then collect_vms lvl team_f vm_f zn vms (acc @ [entry_of zn vm])
      else collect_vms lvl team_f vm_f zn vms acc)"
  by (simp add: keeps_vm_def entry_of_def)

lemma collect_vms_eq:
  "collect_vms lvl team_f vm_f zn vms acc =
     acc @ map (entry_of zn) (filter (keeps_vm lvl team_f vm_f) vms)"
  by (induction vms arbitrary: acc) (simp_all add: collect_vms_Cons del: collect_vms.simps(2))

lemma collect_zones_Cons:
  "collect_zones lvl zone_f team_f vm_f ((zn, zc) # zs) acc =
     (if keeps_zone lvl zone_f zn
      then collect_zones lvl zone_f team_f vm_f zs (collect_vms lvl team_f vm_f zn zc acc)
      else collect_zones lvl zone_f team_f vm_f zs acc)"
  by (simp add: keeps_zone_def)

lemma collect_zones_eq:
  "collect_zones lvl zone_f team_f vm_f zs acc =
     acc @ concat (map (\<lambda>(zn, zc). map (entry_of zn) (filter (keeps_vm lvl team_f vm_f) zc))
                    (filter (\<lambda>(zn, zc). keeps_zone lvl zone_f zn) zs))"
proof (induction zs arbitrary: acc)
  case Nil
  then show ?case by simp
next
  case (Cons z zs)
  obtain zn zc where z: "z = (zn, zc)" by (cases z)
  show ?case
    unfolding z by (simp add: collect_zones_Cons Cons.IH collect_vms_eq del: collect_zones.simps(2))
qed

lemma all_vms_eq: "all_vms cfg = concat (map (\<lambda>(zn, zc). map (entry_of zn) zc) (zones cfg))"
  by (simp add: all_vms_def entry_of_def)

lemma filter_concat_zones:
  "filter P (concat (map (\<lambda>(zn, zc). map (entry_of zn) zc) zs)) =
     concat (map (\<lambda>(zn, zc). map (entry_of zn) (filter (\<lambda>vm. P (entry_of zn vm)) zc)) zs)"
  by (induction zs) (auto simp: filter_map comp_def)

lemma vms_to_reset_VM:
  "vms_to_reset cfg VM zone_f team_f vm_f = filter (\<lambda>e. entry_name e = vm_f) (all_vms cfg)"
proof -
  have "keeps_vm VM team_f vm_f = (\<lambda>vm. entry_name (entry_of zn vm) = vm_f)" for zn
    by (simp add: keeps_vm_def entry_of_def)
  then show ?thesis
    by (simp add: vms_to_reset_def collect_zones_eq all_vms_eq filter_concat_zones keeps_zone_def)
qed

lemma vms_to_reset_TEAM:
  assumes "truthy_int team_f"
  shows "vms_to_reset cfg TEAM zone_f team_f vm_f = filter (\<lambda>e. entry_team e = team_f) (all_vms cfg)"
proof -
  have "keeps_vm TEAM team_f vm_f = (\<lambda>vm. entry_team (entry_of zn vm) = team_f)" for zn
    using assms by (simp add: keeps_vm_def entry_of_def)
  then show ?thesis
    by (simp add: vms_to_reset_def collect_zones_eq all_vms_eq filter_concat_zones keeps_zone_def)
qed

lemma vms_to_reset_TEAM_unfiltered:
  assumes "\<not> truthy_int team_f"
  shows "vms_to_reset cfg TEAM zone_f team_f vm_f = all_vms cfg"
proof -
  have "keeps_vm TEAM team_f vm_f = (\<lambda>vm. True)"
    using assms by (simp add: keeps_vm_def)
  then show ?thesis
    by (simp add: vms_to_reset_def collect_zones_eq all_vms_eq keeps_zone_def)
qed

lemma filter_eq_distinct_le1:
  "distinct (map f xs) \<Longrightarrow> length (filter (\<lambda>x. f x = v) xs) \<le> 1"
proof (induction xs)
  case Nil
  then show ?case by simp
next
  case (Cons x xs)
  show ?case
  proof (cases "f x = v")
    case True
    with Cons.prems have "\<forall>y \<in> set xs. f y \<noteq> v" by (auto simp: image_iff)
    then have "filter (\<lambda>x. f x = v) xs = []" by (simp add: filter_empty_conv)
    with True show ?thesis by simp
  next
    case False
    with Cons show ?thesis by simp
  qed
qed

section \<open>Steps of the event loop\<close>

text \<open>
  What admitting a coroutine and resuming one change in the state, and that every step of
  an enabled coroutine keeps the invariant of the event loop. For an operation whose
  tasks are all pending, a step never lowers the number of completed tasks.
\<close>

lemma dispatch_start_task [simp]: "dispatch ad (start_task now t) = dispatch ad t"
  by (simp add: dispatch_def start_task_def split: option.splits)

lemma count_awaiting_update:
  "i < length fs \<Longrightarrow>
     length (filter is_awaiting (fs[i := f])) + (if is_awaiting (fs ! i) then 1 else 0) =
     length (filter is_awaiting fs) + (if is_awaiting f then 1 else 0)"
proof (induction fs arbitrary: i)
  case Nil
  then show ?case by simp
next
  case (Cons a fs)
  show ?case
  proof (cases i)
    case 0
    then show ?thesis by simp
  next
    case (Suc j)
    with Cons.prems have "j < length fs" by simp
    from Cons.IH[OF this] Suc show ?thesis by simp
  qed
qed

lemma settle_fields:
  "frames (settle sch cb i r s) = (frames s)[i := Done]"
  "tasks (operation (settle sch cb i r s)) =
     (tasks (operation s))[i := finish_task r (clock sch (ticks s)) (tasks (operation s) ! i)]"
  "calls (settle sch cb i r s) = calls s"
  "semaphore (settle sch cb i r s) = Suc (semaphore s)"
  by (simp_all add: settle_def Let_def)

lemma admit_Call:
  assumes "dispatch ad (tasks (operation s) ! i) = Call c"
  shows "frames (admit sch ad cb i s) = (frames s)[i := Awaiting c]"
    and "tasks (operation (admit sch ad cb i s)) =
           (tasks (operation s))[i := start_task (clock sch (ticks s)) (tasks (operation s) ! i)]"
    and "calls (admit sch ad cb i s) = calls s @ [(i, c)]"
    and "semaphore (admit sch ad cb i s) = semaphore s - 1"
  using assms by (simp_all add: admit_def Let_def)

lemma admit_Raise:
  assumes "dispatch ad (tasks (operation s) ! i) = Raise m" and "i < length (tasks (operation s))"
  shows "frames (admit sch ad cb i s) = (frames s)[i := Done]"
    and "tasks (operation (admit sch ad cb i s)) =
           (tasks (operation s))[i := finish_task (Some m) (clock sch (Suc (ticks s)))
              (start_task (clock sch (ticks s)) (tasks (operation s) ! i))]"
    and "calls (admit sch ad cb i s) = calls s"
    and "semaphore (admit sch ad cb i s) = Suc (semaphore s - 1)"
  using assms by (simp_all add: admit_def Let_def settle_fields)

lemma resume_Awaiting:
  assumes "frames s ! i = Awaiting c"
  shows "frames (resume sch ad cb i s) = (frames s)[i := Done]"
    and "tasks (operation (resume sch ad cb i s)) =
           (tasks (operation s))[i := finish_task (invoke ad i c) (clock sch (ticks s))
              (tasks (operation s) ! i)]"
    and "calls (resume sch ad cb i s) = calls s"
    and "semaphore (resume sch ad cb i s) = Suc (semaphore s)"
  using assms by (simp_all add: resume_def settle_fields)

lemma related_start:
  "dispatch ad t0 = Call c \<Longrightarrow> related ad i t0 (Awaiting c) (start_task now t0)"
  by (simp add: related_def start_task_def)

lemma related_raise:
  "dispatch ad t0 = Raise m \<Longrightarrow>
     related ad i t0 Done (finish_task (Some m) now' (start_task now t0))"
  by (simp add: related_def start_task_def finish_task_def task_raises_def)

lemma related_finish:
  "related ad i t0 (Awaiting c) t \<Longrightarrow> related ad i t0 Done (finish_task (invoke ad i c) now t)"
  by (auto simp: related_def finish_task_def task_raises_def split: option.splits)

lemma tracks_admit:
  assumes tr: "tracks ad ts0 parallel s" and i: "i < length (frames s)"
    and w: "frames s ! i = Waiting" and sem: "0 < semaphore s"
  shows "tracks ad ts0 parallel (admit sch ad cb i s)"
proof -
  from tr have len: "length (frames s) = length ts0" "length (tasks (operation s)) = length ts0"
    and rel: "\<And>j. j < length ts0 \<Longrightarrow> related ad j (ts0 ! j) (frames s ! j) (tasks (operation s) ! j)"
    and cl: "\<forall>(j, c) \<in> set (calls s). j < length ts0 \<and> dispatch ad (ts0 ! j) = Call c"
    and cnt: "semaphore s + length (filter is_awaiting (frames s)) = parallel"
    by (simp_all add: tracks_def)
  from i len have i0: "i < length ts0" by simp
  from rel[OF i0] w have same: "tasks (operation s) ! i = ts0 ! i" by (simp add: related_def)
  show ?thesis
  proof (cases "dispatch ad (ts0 ! i)")
    case (Call c)
    then have d: "dispatch ad (tasks (operation s) ! i) = Call c" by (simp add: same)
    have "length (filter is_awaiting ((frames s)[i := Awaiting c])) = Suc (length (filter is_awaiting (frames s)))"
      using count_awaiting_update[OF i, of "Awaiting c"] w by simp
    with cnt sem have "semaphore s - 1 + length (filter is_awaiting ((frames s)[i := Awaiting c])) = parallel"
      by simp
    moreover have "related ad j (ts0 ! j) ((frames s)[i := Awaiting c] ! j)
        ((tasks (operation s))[i := start_task (clock sch (ticks s)) (tasks (operation s) ! i)] ! j)"
      if "j < length ts0" for j
    proof (cases "j = i")
      case True
      then show ?thesis using i len Call by (simp add: same related_start)
    next
      case False
      then show ?thesis using rel[OF that] by simp
    qed
    ultimately show ?thesis
      using len cl i0 Call by (auto simp: tracks_def admit_Call[OF d])
  next
    case (Raise m)
    then have d: "dispatch ad (tasks (operation s) ! i) = Raise m" by (simp add: same)
    have il: "i < length (tasks (operation s))" using i0 len by simp
    have "length (filter is_awaiting ((frames s)[i := Done])) = length (filter is_awaiting (frames s))"
      using count_awaiting_update[OF i, of Done] w by simp
    with cnt sem have "Suc (semaphore s - 1) + length (filter is_awaiting ((frames s)[i := Done])) = parallel"
      by simp
    moreover have "related ad j (ts0 ! j) ((frames s)[i := Done] ! j)
        ((tasks (operation s))[i := finish_task (Some m) (clock sch (Suc (ticks s)))
              (start_task (clock sch (ticks s)) (tasks (operation s) ! i))] ! j)"
      if "j < length ts0" for j
    proof (cases "j = i")
      case True
      then show ?thesis using i len Raise by (simp add: same related_raise)
    next
      case False
      then show ?thesis using rel[OF that] by simp
    qed
    ultimately show ?thesis
      using len cl by (auto simp: tracks_def admit_Raise[OF d il])
  qed
qed

lemma tracks_resume:
  assumes tr: "tracks ad ts0 parallel s" and i: "i < length (frames s)"
    and w: "frames s ! i = Awaiting c"
  shows "tracks ad ts0 parallel (resume sch ad cb i s)"
proof -
  from tr have len: "length (frames s) = length ts0" "length (tasks (operation s)) = length ts0"
    and rel: "\<And>j. j < length ts0 \<Longrightarrow> related ad j (ts0 ! j) (frames s ! j) (tasks (operation s) ! j)"
    and cl: "\<forall>(j, c) \<in> set (calls s). j < length ts0 \<and> dispatch ad (ts0 ! j) = Call c"
    and cnt: "semaphore s + length (filter is_awaiting (frames s)) = parallel"
    by (simp_all add: tracks_def)
  from i len have i0: "i < length ts0" by simp
  have "Suc (length (filter is_awaiting ((frames s)[i := Done]))) = length (filter is_awaiting (frames s))"
    using count_awaiting_update[OF i, of Done] w by simp
  with cnt have "Suc (semaphore s) + length (filter is_awaiting ((frames s)[i := Done])) = parallel"
    by simp
  moreover have "related ad j (ts0 ! j) ((frames s)[i := Done] ! j)
      ((tasks (operation s))[i := finish_task (invoke ad i c) (clock sch (ticks s))
              (tasks (operation s) ! i)] ! j)"
    if "j < length ts0" for j
  proof (cases "j = i")
    case True
    then show ?thesis using i len rel[OF i0] w by (simp add: related_finish)
  next
    case False
    then show ?thesis using rel[OF that] by simp
  qed
  ultimately show ?thesis
    using len cl by (auto simp: tracks_def resume_Awaiting[OF w])
qed

lemma tracks_turns: "tracks ad ts0 parallel (s\<lparr>turns := n\<rparr>) = tracks ad ts0 parallel s"
  by (simp add: tracks_def)

lemma tracks_fire:
  assumes "tracks ad ts0 parallel s" and "e \<in> set (enabled s)"
  shows "tracks ad ts0 parallel (fire sch ad cb e (s\<lparr>turns := n\<rparr>))"
proof -
  from enabled_cases[OF assms(2)] show ?thesis
  proof (elim disjE exE conjE)
    fix i
    assume "e = Admit i" "i < length (frames s)" "frames s ! i = Waiting" "0 < semaphore s"
    then show ?thesis
      using tracks_admit[of ad ts0 parallel "s\<lparr>turns := n\<rparr>" i sch cb] assms(1)
      by (simp add: tracks_turns)
  next
    fix i c
    assume "e = Resume i" "i < length (frames s)" "frames s ! i = Awaiting c"
    then show ?thesis
      using tracks_resume[of ad ts0 parallel "s\<lparr>turns := n\<rparr>" i c sch cb] assms(1)
      by (simp add: tracks_turns)
  qed
qed

lemma tracks_initial: "tracks ad (tasks opn) parallel (initial_state sch opn parallel)"
  by (simp add: tracks_def initial_state_def related_def)

lemma related_Done_Call:
  assumes "related (Some f) i t0 Done t" and "dispatch (Some f) t0 = Call c"
  shows "status t = (if f i c = None then ''completed'' else ''failed'')"
    and "f i c \<noteq> None \<Longrightarrow> error t = f i c"
  using assms by (auto simp: related_def task_raises_def invoke_def split: option.splits)

lemma related_Done_Raise:
  assumes "related ad i t0 Done t" and "dispatch ad t0 = Raise m"
  shows "status t = ''failed''" and "error t = Some m"
  using assms by (simp_all add: related_def task_raises_def)

lemma dispatch_unsupported:
  "action t = CHECKPOINT_RESTORE \<or> action t = REBUILD \<Longrightarrow>
     dispatch ad t = Raise (''Unsupported action: '' @ str_ResetAction (action t))"
  by (auto simp: dispatch_def)


lemma dispatch_Raise_nonempty: "dispatch ad t = Raise m \<Longrightarrow> m \<noteq> []"
  by (auto simp: dispatch_def no_attribute_def split: if_splits option.splits)

lemma task_raises_nonempty: "messages_nonempty ad \<Longrightarrow> task_raises ad i t \<noteq> Some []"
  by (auto simp: task_raises_def messages_nonempty_def dest: dispatch_Raise_nonempty
      split: dispatched.splits)

lemma related_fresh_invariant:
  assumes "related ad i t0 f t" and "status t0 = ''pending''" and "end_time t0 = None"
    and "error t0 = None"
  shows "task_sound ad t"
  unfolding task_sound_def
proof (intro conjI impI)
  show "task_invariant_set t"
    using assms
    by (cases f) (auto simp: related_def task_invariant_set_def split: option.splits)
  show "task_invariant t" if "messages_nonempty ad"
  proof (cases f)
    case Waiting
    with assms show ?thesis by (simp add: related_def task_invariant_def truthy_str_def)
  next
    case (Awaiting c)
    with assms show ?thesis by (simp add: related_def task_invariant_def truthy_str_def)
  next
    case Done
    show ?thesis
    proof (cases "task_raises ad i t0")
      case None
      with Done assms show ?thesis by (simp add: related_def task_invariant_def truthy_str_def)
    next
      case (Some msg)
      with task_raises_nonempty[OF that, of i t0] have "msg \<noteq> []" by auto
      with Some Done assms show ?thesis by (simp add: related_def task_invariant_def truthy_str_def)
    qed
  qed
qed

lemma reported_fire:
  "set (reported (fire sch ad cb e s)) \<subseteq> insert (operation (fire sch ad cb e s)) (set (reported s))"
proof (cases e)
  case (Admit i)
  then show ?thesis
    by (auto simp: admit_def settle_def Let_def split: dispatched.splits)
next
  case (Resume i)
  then show ?thesis
    by (auto simp: resume_def settle_def Let_def split: frame.splits)
qed

lemma tracks_fresh_invariant:
  assumes "tracks ad ts0 parallel s"
    and "\<forall>t0 \<in> set ts0. status t0 = ''pending'' \<and> end_time t0 = None \<and> error t0 = None"
  shows "\<forall>t \<in> set (tasks (operation s)). task_sound ad t"
proof
  fix t assume "t \<in> set (tasks (operation s))"
  then obtain i where i: "i < length (tasks (operation s))" "t = tasks (operation s) ! i"
    by (auto simp: in_set_conv_nth)
  with assms(1) have "i < length ts0" "related ad i (ts0 ! i) (frames s ! i) t"
    by (simp_all add: tracks_def)
  moreover from this(1) assms(2) have "status (ts0 ! i) = ''pending'' \<and> end_time (ts0 ! i) = None \<and> error (ts0 ! i) = None"
    by simp
  ultimately show "task_sound ad t" using related_fresh_invariant by blast
qed

lemma consistent_fire:
  assumes "consistent ad ts0 parallel s" and "e \<in> set (enabled s)"
    and "\<forall>t0 \<in> set ts0. status t0 = ''pending'' \<and> end_time t0 = None \<and> error t0 = None"
  shows "consistent ad ts0 parallel (fire sch ad cb e (s\<lparr>turns := n\<rparr>))"
proof -
  let ?s' = "fire sch ad cb e (s\<lparr>turns := n\<rparr>)"
  from assms(1,2) have tr: "tracks ad ts0 parallel ?s'"
    by (simp add: consistent_def tracks_fire)
  then have inv: "\<forall>t \<in> set (tasks (operation ?s')). task_sound ad t"
    using assms(3) by (rule tracks_fresh_invariant)
  have "\<forall>t \<in> set (tasks seen). task_sound ad t" if "seen \<in> set (reported ?s')" for seen
  proof -
    from that reported_fire[of sch ad cb e "s\<lparr>turns := n\<rparr>"]
    have "seen = operation ?s' \<or> seen \<in> set (reported s)" by auto
    then show ?thesis using inv assms(1) by (auto simp: consistent_def)
  qed
  with tr inv show ?thesis by (simp add: consistent_def)
qed

lemma count_status_update:
  "i < length ts \<Longrightarrow>
     count_status v (ts[i := t]) + (if status (ts ! i) = v then 1 else 0) =
     count_status v ts + (if status t = v then 1 else 0)"
proof (induction ts arbitrary: i)
  case Nil
  then show ?case by simp
next
  case (Cons a ts)
  show ?case
  proof (cases i)
    case 0
    then show ?thesis by simp
  next
    case (Suc j)
    with Cons.prems have "j < length ts" by simp
    from Cons.IH[OF this] Suc show ?thesis by simp
  qed
qed

lemma count_status_le: "count_status v ts \<le> length ts"
  by (induction ts) auto

lemma count_status_all: "count_status v ts = length ts \<longleftrightarrow> (\<forall>t \<in> set ts. status t = v)"
proof (induction ts)
  case Nil
  then show ?case by simp
next
  case (Cons a ts)
  show ?case
    using Cons count_status_le[of v ts] by auto
qed

lemma progress_mono:
  assumes "length (tasks a) = length (tasks b)"
    and "count_status ''completed'' (tasks a) \<le> count_status ''completed'' (tasks b)"
  shows "operation_progress a \<le> operation_progress b"
proof (cases "tasks a = []")
  case True
  with assms(1) show ?thesis by (simp add: operation_progress_def)
next
  case False
  with assms(1) have "tasks b \<noteq> []" by auto
  with False assms show ?thesis
    by (simp add: operation_progress_def divide_right_mono)
qed

lemma progress_full:
  "operation_progress opn = 100 \<longleftrightarrow>
     tasks opn \<noteq> [] \<and> (\<forall>t \<in> set (tasks opn). status t = ''completed'')"
proof (cases "tasks opn = []")
  case True
  then show ?thesis by (simp add: operation_progress_def)
next
  case False
  then have "operation_progress opn = 100 \<longleftrightarrow>
      count_status ''completed'' (tasks opn) = length (tasks opn)"
    by (simp add: operation_progress_def field_simps flip: of_nat_mult)
  with False show ?thesis by (simp add: count_status_all)
qed

lemma fire_completed_mono:
  assumes tr: "tracks ad ts0 parallel s" and en: "e \<in> set (enabled s)"
    and fresh: "\<forall>t0 \<in> set ts0. status t0 = ''pending''"
  shows "count_status ''completed'' (tasks (operation s))
           \<le> count_status ''completed'' (tasks (operation (fire sch ad cb e (s\<lparr>turns := n\<rparr>))))"
proof -
  from tr have len: "length (frames s) = length ts0" "length (tasks (operation s)) = length ts0"
    and rel: "\<And>j. j < length ts0 \<Longrightarrow> related ad j (ts0 ! j) (frames s ! j) (tasks (operation s) ! j)"
    by (simp_all add: tracks_def)
  from enabled_cases[OF en] show ?thesis
  proof (elim disjE exE conjE)
    fix i
    assume e: "e = Admit i" and i: "i < length (frames s)" and w: "frames s ! i = Waiting"
    from i len have i0: "i < length ts0" and il: "i < length (tasks (operation s))" by simp_all
    from rel[OF i0] w have same: "tasks (operation s) ! i = ts0 ! i" by (simp add: related_def)
    from fresh i0 have p: "status (ts0 ! i) = ''pending''" by simp
    show ?thesis
    proof (cases "dispatch ad (ts0 ! i)")
      case (Call c)
      then have d: "dispatch ad (tasks (operation (s\<lparr>turns := n\<rparr>)) ! i) = Call c" by (simp add: same)
      show ?thesis
        using count_status_update[OF il, of "''completed''" "start_task (clock sch (ticks s)) (ts0 ! i)"] p
        by (simp add: e admit_Call(2)[OF d] same start_task_def)
    next
      case (Raise m)
      then have d: "dispatch ad (tasks (operation (s\<lparr>turns := n\<rparr>)) ! i) = Raise m" by (simp add: same)
      show ?thesis
        using count_status_update[OF il, of "''completed''"
            "finish_task (Some m) (clock sch (Suc (ticks s))) (start_task (clock sch (ticks s)) (ts0 ! i))"] p il
        by (simp add: e admit_Raise(2)[OF d] same start_task_def finish_task_def)
    qed
  next
    fix i c
    assume e: "e = Resume i" and i: "i < length (frames s)" and w: "frames s ! i = Awaiting c"
    from i len have i0: "i < length ts0" and il: "i < length (tasks (operation s))" by simp_all
    from rel[OF i0] w have r: "status (tasks (operation s) ! i) = ''running''" by (simp add: related_def)
    have w': "frames (s\<lparr>turns := n\<rparr>) ! i = Awaiting c" using w by simp
    show ?thesis
      using count_status_update[OF il, of "''completed''"
          "finish_task (invoke ad i c) (clock sch (ticks s)) (tasks (operation s) ! i)"] r
      by (simp add: e resume_Awaiting(2)[OF w'] split: if_splits)
  qed
qed

lemma fire_progress_mono:
  assumes "tracks ad ts0 parallel s" and "e \<in> set (enabled s)"
    and "\<forall>t0 \<in> set ts0. status t0 = ''pending''"
  shows "operation_progress (operation s)
           \<le> operation_progress (operation (fire sch ad cb e (s\<lparr>turns := n\<rparr>)))"
proof (rule progress_mono)
  from assms(1) tracks_fire[OF assms(1,2), of sch cb n]
  show "length (tasks (operation s)) = length (tasks (operation (fire sch ad cb e (s\<lparr>turns := n\<rparr>))))"
    by (simp add: tracks_def)
  show "count_status ''completed'' (tasks (operation s))
           \<le> count_status ''completed'' (tasks (operation (fire sch ad cb e (s\<lparr>turns := n\<rparr>))))"
    using assms by (rule fire_completed_mono)
qed

section \<open>Runs of the event loop\<close>

text \<open>
  A property kept by every step holds in every state of a run, whatever the scheduler. A
  run ends in a state where no coroutine can go on; under a limit of at least \<open>1\<close> that
  is a state where every coroutine is done, so \<^verbatim>\<open>execute\<close> returns.
\<close>

lemma gather_trace_step:
  "enabled s = e # es \<Longrightarrow>
     gather_trace sch ad cb s =
       s # gather_trace sch ad cb
             (fire sch ad cb ((e # es) ! (pick sch (turns s) mod length (e # es)))
                (s\<lparr>turns := Suc (turns s)\<rparr>))"
  by (subst gather_trace.simps) simp

lemma gather_trace_stuck: "enabled s = [] \<Longrightarrow> gather_trace sch ad cb s = [s]"
  by (subst gather_trace.simps) simp

lemma gather_trace_head: "gather_trace sch ad cb s = s # tl (gather_trace sch ad cb s)"
  by (cases "enabled s") (simp_all add: gather_trace_stuck gather_trace_step)

lemma picked_enabled:
  "enabled s = e # es \<Longrightarrow> (e # es) ! (pick sch (turns s) mod length (e # es)) \<in> set (enabled s)"
  by (metis length_greater_0_conv list.distinct(1) mod_less_divisor nth_mem)

lemma gather_trace_invariant:
  assumes "P s"
    and "\<And>s e n. P s \<Longrightarrow> e \<in> set (enabled s) \<Longrightarrow> P (fire sch ad cb e (s\<lparr>turns := n\<rparr>))"
  shows "\<forall>s' \<in> set (gather_trace sch ad cb s). P s'"
  using assms
proof (induction sch ad cb s rule: gather_trace.induct)
  case (1 sch ad cb s)
  show ?case
  proof (cases "enabled s")
    case Nil
    then show ?thesis using "1.prems"(1) by (simp add: gather_trace_stuck)
  next
    case (Cons e es)
    let ?s' = "fire sch ad cb ((e # es) ! (pick sch (turns s) mod length (e # es))) (s\<lparr>turns := Suc (turns s)\<rparr>)"
    have "P ?s'"
      by (rule "1.prems"(2)[OF "1.prems"(1) picked_enabled[OF Cons]])
    then have "\<forall>s' \<in> set (gather_trace sch ad cb ?s'). P s'"
      by (rule "1.IH"[OF Cons]) (rule "1.prems"(2))
    then show ?thesis using "1.prems"(1) by (simp add: gather_trace_step[OF Cons])
  qed
qed

lemma gather_trace_last: "enabled (last (gather_trace sch ad cb s)) = []"
proof (induction sch ad cb s rule: gather_trace.induct)
  case (1 sch ad cb s)
  show ?case
  proof (cases "enabled s")
    case Nil
    then show ?thesis by (simp add: gather_trace_stuck)
  next
    case (Cons e es)
    let ?s' = "fire sch ad cb ((e # es) ! (pick sch (turns s) mod length (e # es))) (s\<lparr>turns := Suc (turns s)\<rparr>)"
    have "gather_trace sch ad cb ?s' \<noteq> []"
      by (subst gather_trace_head) simp
    then show ?thesis using "1.IH"[OF Cons] by (simp add: gather_trace_step[OF Cons])
  qed
qed

lemma gather_trace_sorted:
  fixes f :: "exec_state \<Rightarrow> 'a::linorder"
  assumes "P s"
    and "\<And>s e n. P s \<Longrightarrow> e \<in> set (enabled s) \<Longrightarrow> P (fire sch ad cb e (s\<lparr>turns := n\<rparr>))"
    and "\<And>s e n. P s \<Longrightarrow> e \<in> set (enabled s) \<Longrightarrow> f s \<le> f (fire sch ad cb e (s\<lparr>turns := n\<rparr>))"
  shows "sorted (map f (gather_trace sch ad cb s))"
  using assms
proof (induction sch ad cb s rule: gather_trace.induct)
  case (1 sch ad cb s)
  show ?case
  proof (cases "enabled s")
    case Nil
    then show ?thesis by (simp add: gather_trace_stuck)
  next
    case (Cons e es)
    let ?s' = "fire sch ad cb ((e # es) ! (pick sch (turns s) mod length (e # es))) (s\<lparr>turns := Suc (turns s)\<rparr>)"
    have P': "P ?s'"
      by (rule "1.prems"(2)[OF "1.prems"(1) picked_enabled[OF Cons]])
    have le: "f s \<le> f ?s'"
      by (rule "1.prems"(3)[OF "1.prems"(1) picked_enabled[OF Cons]])
    have srt: "sorted (map f (gather_trace sch ad cb ?s'))"
      by (rule "1.IH"[OF Cons P']) (rule "1.prems"(2), assumption+, rule "1.prems"(3), assumption+)
    have "sorted (map f (?s' # tl (gather_trace sch ad cb ?s')))"
      using srt gather_trace_head[of sch ad cb ?s'] by simp
    then have "\<forall>y \<in> set (gather_trace sch ad cb ?s'). f ?s' \<le> f y"
      by (subst gather_trace_head) simp
    with le have "\<forall>y \<in> set (gather_trace sch ad cb ?s'). f s \<le> f y" by auto
    with srt show ?thesis by (simp add: gather_trace_step[OF Cons])
  qed
qed

lemma stuck_all_done:
  assumes tr: "tracks ad ts0 parallel s" and en: "enabled s = []" and par: "0 < parallel"
  shows "list_all (\<lambda>f. f = Done) (frames s)"
proof -
  from en have na: "\<And>i. i < length (frames s) \<Longrightarrow> \<not> is_awaiting (frames s ! i)"
    and nw: "\<And>i. i < length (frames s) \<Longrightarrow> \<not> (frames s ! i = Waiting \<and> 0 < semaphore s)"
    by (auto simp: enabled_def filter_empty_conv)
  from na have "filter is_awaiting (frames s) = []"
    by (auto simp: filter_empty_conv in_set_conv_nth)
  with tr par have "0 < semaphore s" by (simp add: tracks_def)
  with nw have "\<And>i. i < length (frames s) \<Longrightarrow> frames s ! i \<noteq> Waiting" by blast
  with na have "\<And>i. i < length (frames s) \<Longrightarrow> frames s ! i = Done"
    by (metis frame.exhaust is_awaiting.simps(1))
  then show ?thesis by (simp add: list_all_length)
qed

lemma execute_trace_tracks:
  "\<forall>s \<in> set (execute_trace sch ad opn parallel cb). tracks ad (tasks opn) parallel s"
  unfolding execute_trace_def
  by (rule gather_trace_invariant) (rule tracks_initial, rule tracks_fire)

lemma execute_trace_last_in: "last (execute_trace sch ad opn parallel cb) \<in> set (execute_trace sch ad opn parallel cb)"
  unfolding execute_trace_def by (rule last_in_set) (subst gather_trace_head, simp)

lemma execute_final:
  assumes "0 < parallel"
  shows "execute sch ad (Some opn) parallel cb =
           Returns ((operation (last (execute_trace sch ad opn (nat parallel) cb)))
              \<lparr>op_end_time := Some (clock sch (ticks (last (execute_trace sch ad opn (nat parallel) cb))))\<rparr>)"
    and "length (tasks (operation (last (execute_trace sch ad opn (nat parallel) cb)))) = length (tasks opn)"
    and "\<And>i. i < length (tasks opn) \<Longrightarrow>
           related ad i (tasks opn ! i) Done (tasks (operation (last (execute_trace sch ad opn (nat parallel) cb))) ! i)"
proof -
  let ?s = "last (execute_trace sch ad opn (nat parallel) cb)"
  have tr: "tracks ad (tasks opn) (nat parallel) ?s"
    using execute_trace_tracks execute_trace_last_in by blast
  have en: "enabled ?s = []"
    unfolding execute_trace_def by (rule gather_trace_last)
  from assms have "0 < nat parallel" by simp
  from stuck_all_done[OF tr en this] have fin: "list_all (\<lambda>f. f = Done) (frames ?s)" .
  then show "execute sch ad (Some opn) parallel cb =
           Returns ((operation ?s)\<lparr>op_end_time := Some (clock sch (ticks ?s))\<rparr>)"
    using assms by (simp add: execute_def Let_def)
  from tr show "length (tasks (operation ?s)) = length (tasks opn)" by (simp add: tracks_def)
  show "related ad i (tasks opn ! i) Done (tasks (operation ?s) ! i)" if "i < length (tasks opn)" for i
  proof -
    from tr that have "related ad i (tasks opn ! i) (frames ?s ! i) (tasks (operation ?s) ! i)"
      and "i < length (frames ?s)"
      by (simp_all add: tracks_def)
    moreover from fin \<open>i < length (frames ?s)\<close> have "frames ?s ! i = Done"
      by (simp add: list_all_length)
    ultimately show ?thesis by simp
  qed
qed

lemma plan_reset_tasks:
  "t \<in> set (tasks (plan_reset cfg oid lvl act snap zone_f team_f vm_f)) \<Longrightarrow>
     action t = act \<and> snapshot_name t = snap \<and> status t = ''pending'' \<and> start_time t = None \<and>
     end_time t = None \<and> error t = None"
  by (auto simp: plan_reset_def new_task_def)

lemma plan_reset_fresh:
  "\<forall>t0 \<in> set (tasks (plan_reset cfg oid lvl act snap zone_f team_f vm_f)).
     status t0 = ''pending'' \<and> end_time t0 = None \<and> error t0 = None"
  using plan_reset_tasks by blast

lemma execute_trace_consistent:
  assumes "\<forall>t0 \<in> set (tasks opn). status t0 = ''pending'' \<and> end_time t0 = None \<and> error t0 = None"
  shows "\<forall>s \<in> set (execute_trace sch ad opn parallel cb). consistent ad (tasks opn) parallel s"
  unfolding execute_trace_def
proof (rule gather_trace_invariant)
  show "consistent ad (tasks opn) parallel (initial_state sch opn parallel)"
    using tracks_fresh_invariant[OF tracks_initial assms]
    by (simp add: consistent_def tracks_initial) (simp add: initial_state_def)
next
  fix s e n
  assume "consistent ad (tasks opn) parallel s" "e \<in> set (enabled s)"
  then show "consistent ad (tasks opn) parallel (fire sch ad cb e (s\<lparr>turns := n\<rparr>))"
    using assms by (rule consistent_fire)
qed

lemma execute_Returns:
  assumes "execute sch ad (Some opn) parallel cb = Returns fin"
  shows "tasks fin = tasks (operation (last (execute_trace sch ad opn (nat parallel) cb)))"
    and "list_all (\<lambda>f. f = Done) (frames (last (execute_trace sch ad opn (nat parallel) cb)))"
  using assms by (auto simp: execute_def Let_def split: if_splits)

text \<open>
  The limits under which \<^verbatim>\<open>execute\<close> does not return: the semaphore refuses a
  negative value, and with the value \<open>0\<close> no coroutine is ever admitted.
\<close>

lemma execute_negative_limit:
  "parallel < 0 \<Longrightarrow>
     execute sch ad (Some opn) parallel cb = Raises ''Semaphore initial value must be >= 0''"
  by (simp add: execute_def)

lemma execute_zero_limit:
  assumes "tasks opn \<noteq> []"
  shows "execute sch ad (Some opn) 0 cb = Hangs"
proof -
  have "enabled (initial_state sch opn 0) = []"
    by (auto simp: enabled_def initial_state_def filter_empty_conv)
  then have "execute_trace sch ad opn 0 cb = [initial_state sch opn 0]"
    unfolding execute_trace_def by (rule gather_trace_stuck)
  moreover have "\<not> list_all (\<lambda>f. f = Done) (frames (initial_state sch opn 0))"
    using assms by (cases "tasks opn") (simp_all add: initial_state_def)
  ultimately show ?thesis by (simp add: execute_def)
qed

section \<open>Concrete runs\<close>

text \<open>
  The example plan executed under \<open>unit_scheduler\<close>, evaluated.
\<close>

lemma blue_plan_tasks:
  "tasks (blue_plan act) =
     [\<lparr>vm_name = Some ''a'', action = act, snapshot_name = None, status = ''pending'',
       start_time = None, end_time = None, error = None\<rparr>,
      \<lparr>vm_name = Some ''b'', action = act, snapshot_name = None, status = ''pending'',
       start_time = None, end_time = None, error = None\<rparr>]"
  by (simp add: blue_plan_def plan_reset_def vms_to_reset_def blue_topology_def new_task_def)

lemma flaky_run:
  "execute unit_scheduler (Some flaky_adapter) (Some (blue_plan POWER_CYCLE)) 5 True = Returns flaky_done"
  by code_simp

lemma rebuild_run:
  "execute unit_scheduler (Some flaky_adapter) (Some (blue_plan REBUILD)) 5 True = Returns rebuild_done"
  by code_simp

lemma dry_progress:
  "map (\<lambda>s. operation_progress (operation s))
     (execute_trace unit_scheduler (Some (\<lambda>i c. None))
        (plan_reset blue_topology ''op'' FULL POWER_CYCLE None None None None) 5 True) =
   [0, 0, 0, 50, 100]"
  by code_simp

section \<open>Properties of the derived status\<close>

lemma any_status_iff: "any_status v ts \<longleftrightarrow> (\<exists>t \<in> set ts. status t = v)"
  by (induction ts) auto

lemma all_status_iff: "all_status v ts \<longleftrightarrow> (\<forall>t \<in> set ts. status t = v)"
  by (induction ts) auto

text \<open>
  Claim C3. The derived status of an operation is \<open>empty\<close> when it has no task; else
  \<open>failed\<close> when some task is failed; else \<open>completed\<close> when every task is completed;
  else \<open>running\<close> when some task is running; else \<open>pending\<close>. It is a function of the
  task list alone: two operations with the same task list have the same status, so
  reading it twice from an unchanged list gives the same answer.
\<close>

theorem operation_status_derived:
  "operation_status opn =
     (if tasks opn = [] then ''empty''
      else if (\<exists>t \<in> set (tasks opn). status t = ''failed'') then ''failed''
      else if (\<forall>t \<in> set (tasks opn). status t = ''completed'') then ''completed''
      else if (\<exists>t \<in> set (tasks opn). status t = ''running'') then ''running''
      else ''pending'')
   \<and> (\<forall>other. tasks other = tasks opn \<longrightarrow> operation_status other = operation_status opn)"
proof (rule conjI)
  show "operation_status opn =
     (if tasks opn = [] then ''empty''
      else if (\<exists>t \<in> set (tasks opn). status t = ''failed'') then ''failed''
      else if (\<forall>t \<in> set (tasks opn). status t = ''completed'') then ''completed''
      else if (\<exists>t \<in> set (tasks opn). status t = ''running'') then ''running''
      else ''pending'')"
    unfolding operation_status_def any_status_iff all_status_iff by (rule refl)
  show "\<forall>other. tasks other = tasks opn \<longrightarrow> operation_status other = operation_status opn"
    by (simp add: operation_status_def)
qed

text \<open>
  The derivation at an operation with one completed and one running task.
\<close>

theorem operation_status_derived_witness:
  "operation_status
     \<lparr>operation_id = ''op'', level = FULL, op_action = POWER_CYCLE,
      tasks = [\<lparr>vm_name = Some ''a'', action = POWER_CYCLE, snapshot_name = None,
                status = ''completed'', start_time = Some 1, end_time = Some 2, error = None\<rparr>,
               \<lparr>vm_name = Some ''b'', action = POWER_CYCLE, snapshot_name = None,
                status = ''running'', start_time = Some 3, end_time = None, error = None\<rparr>],
      op_start_time = Some 0, op_end_time = None\<rparr> = ''running''"
  using operation_status_derived
    [of "\<lparr>operation_id = ''op'', level = FULL, op_action = POWER_CYCLE,
      tasks = [\<lparr>vm_name = Some ''a'', action = POWER_CYCLE, snapshot_name = None,
                status = ''completed'', start_time = Some 1, end_time = Some 2, error = None\<rparr>,
               \<lparr>vm_name = Some ''b'', action = POWER_CYCLE, snapshot_name = None,
                status = ''running'', start_time = Some 3, end_time = None, error = None\<rparr>],
      op_start_time = Some 0, op_end_time = None\<rparr>"]
  by simp

subsection \<open>Scope TEAM\<close>

text \<open>
  The planner tests the team filter for truth, and \<^verbatim>\<open>0\<close> is false in Python: with
  team \<open>0\<close> the filter is skipped and every VM of the range is selected.
\<close>

lemma team_zero_unfiltered: "vms_to_reset cfg TEAM zone_f (Some 0) vm_f = all_vms cfg"
  by (rule vms_to_reset_TEAM_unfiltered) (simp add: truthy_int_def)

text \<open>
  Claim C4, at the team filter \<open>0\<close>: in a zone with VM \<open>a\<close> of team \<open>0\<close> and VM \<open>b\<close> of
  team \<open>1\<close>, resolving scope TEAM with filter \<open>0\<close> selects \<open>b\<close> as well, where the
  specification asks for exactly the VMs of team \<open>0\<close>.
\<close>

theorem team_zero_resets_other_teams:
  "vms_to_reset blue_topology TEAM None (Some 0) None =
     [\<lparr>entry_name = Some ''a'', entry_zone = ''blue'', entry_team = Some 0\<rparr>,
      \<lparr>entry_name = Some ''b'', entry_zone = ''blue'', entry_team = Some 1\<rparr>]"
  by (simp add: team_zero_unfiltered all_vms_def blue_topology_def)

text \<open>
  For every other team number the scope is exactly the VMs of that team, across all zones
  and in topology order.
\<close>

lemma team_scope_nonzero:
  "t \<noteq> 0 \<Longrightarrow> vms_to_reset cfg TEAM zone_f (Some t) vm_f = filter (\<lambda>e. entry_team e = Some t) (all_vms cfg)"
  by (rule vms_to_reset_TEAM) (simp add: truthy_int_def)

text \<open>
  The command line accepts team \<open>0\<close> (it refuses only a missing \<^verbatim>\<open>--team\<close>): a dry run
  with \<^verbatim>\<open>--level team --team 0\<close> over the zone above resets \<open>b\<close>, of team \<open>1\<close>, too.
\<close>

lemma team_zero_run:
  "main dry_environment team_zero_args = Exit 0 (Some (full_done\<lparr>level := TEAM\<rparr>))"
  by code_simp

subsection \<open>Scope VM\<close>

text \<open>
  The planner compares names and keeps every match: two VMs that carry the same name, one
  in each of two zones, are both selected.
\<close>

theorem vm_scope_twins_counterexample:
  "length (vms_to_reset twin_topology VM None None (Some ''dc01'')) = 2"
  by (simp add: vms_to_reset_VM all_vms_def twin_topology_def)

text \<open>
  Claim C8, amended. Resolving scope VM yields exactly the VMs whose name equals the filter,
  in topology order. That is at most one entry when the names of the topology are
  pairwise distinct, and when no VM carries the name the plan has no task (an empty
  operation is returned, no error is raised).
\<close>

theorem vm_scope_resolution:
  "vms_to_reset cfg VM zone_f team_f vm_f = filter (\<lambda>e. entry_name e = vm_f) (all_vms cfg)
   \<and> (distinct (map entry_name (all_vms cfg)) \<longrightarrow> length (vms_to_reset cfg VM zone_f team_f vm_f) \<le> 1)
   \<and> ((\<forall>e \<in> set (all_vms cfg). entry_name e \<noteq> vm_f) \<longrightarrow>
        tasks (plan_reset cfg oid VM act snap zone_f team_f vm_f) = [])"
proof (intro conjI impI)
  show eq: "vms_to_reset cfg VM zone_f team_f vm_f = filter (\<lambda>e. entry_name e = vm_f) (all_vms cfg)"
    by (rule vms_to_reset_VM)
  show "length (vms_to_reset cfg VM zone_f team_f vm_f) \<le> 1"
    if "distinct (map entry_name (all_vms cfg))"
    unfolding eq using that by (rule filter_eq_distinct_le1)
  show "tasks (plan_reset cfg oid VM act snap zone_f team_f vm_f) = []"
    if "\<forall>e \<in> set (all_vms cfg). entry_name e \<noteq> vm_f"
    using that by (simp add: plan_reset_def eq filter_empty_conv)
qed

text \<open>
  A zone with two VMs of distinct names: the filter \<open>b\<close> selects one entry, the filter
  \<open>ghost-vm\<close> none.
\<close>

theorem vm_scope_resolution_witness:
  "distinct (map entry_name (all_vms blue_topology))
   \<and> vms_to_reset blue_topology VM None None (Some ''b'') =
       [\<lparr>entry_name = Some ''b'', entry_zone = ''blue'', entry_team = Some 1\<rparr>]
   \<and> length (vms_to_reset blue_topology VM None None (Some ''b'')) \<le> 1
   \<and> Some ''ghost-vm'' \<notin> set (map entry_name (all_vms blue_topology))
   \<and> tasks (plan_reset blue_topology ''op'' VM POWER_CYCLE None None None (Some ''ghost-vm'')) = []"
proof -
  have d: "distinct (map entry_name (all_vms blue_topology))"
    by (simp add: all_vms_def blue_topology_def)
  have g: "\<forall>e \<in> set (all_vms blue_topology). entry_name e \<noteq> Some ''ghost-vm''"
    by (simp add: all_vms_def blue_topology_def)
  have a: "all_vms blue_topology =
      [\<lparr>entry_name = Some ''a'', entry_zone = ''blue'', entry_team = Some 0\<rparr>,
       \<lparr>entry_name = Some ''b'', entry_zone = ''blue'', entry_team = Some 1\<rparr>]"
    by (simp add: all_vms_def blue_topology_def)
  from vm_scope_resolution[of blue_topology None None "Some ''b''" "''op''" POWER_CYCLE None]
    vm_scope_resolution[of blue_topology None None "Some ''ghost-vm''" "''op''" POWER_CYCLE None]
    d g
  show ?thesis by (simp add: a)
qed

section \<open>Validation of the plan parameters\<close>

text \<open>
  The planner has no check of its parameters: asked for scope TEAM without a team, and for
  a snapshot revert without a snapshot name, it resolves the scope (to every VM, the team
  filter being skipped) and returns an operation with a task per VM.
\<close>

theorem plan_unvalidated_counterexample:
  "map vm_name (tasks (plan_reset blue_topology ''op'' TEAM SNAPSHOT_REVERT None None None None)) =
     [Some ''a'', Some ''b'']"
  by (simp add: plan_reset_def new_task_def vms_to_reset_TEAM_unfiltered truthy_int_def
      all_vms_def blue_topology_def)

text \<open>
  Claim C1, amended. The combinations are refused by the command line, not by the planner:
  for action SNAPSHOT_REVERT with no (or an empty) snapshot name, for scope TEAM with no
  team, for scope ZONE with no (or an empty) zone and for scope VM with no (or an empty)
  VM name, \<^verbatim>\<open>main\<close> ends in \<^verbatim>\<open>parser.error\<close> before the planner is called, so no
  operation exists. \<^verbatim>\<open>plan_reset\<close> itself raises nothing: whatever the parameters, it
  returns the operation with one task per VM of the resolved scope.
\<close>

theorem plan_validation_in_main:
  assumes "ResetLevel_of (arg_level a) = Some lvl" and "ResetAction_of (arg_action a) = Some act"
    and "(act = SNAPSHOT_REVERT \<and> \<not> truthy_str (arg_snapshot a))
       \<or> (lvl = TEAM \<and> arg_team a = None)
       \<or> (lvl = ZONE \<and> \<not> truthy_str (arg_zone a))
       \<or> (lvl = VM \<and> \<not> truthy_str (arg_vm a))"
  shows "(\<exists>msg. main env a = ParserError msg)
       \<and> tasks (plan_reset cfg oid lvl act (arg_snapshot a) (arg_zone a) (arg_team a) (arg_vm a)) =
           map (new_task act (arg_snapshot a))
             (vms_to_reset cfg lvl (arg_zone a) (arg_team a) (arg_vm a))"
proof
  show "\<exists>msg. main env a = ParserError msg"
    using assms by (auto simp: main_def)
  show "tasks (plan_reset cfg oid lvl act (arg_snapshot a) (arg_zone a) (arg_team a) (arg_vm a)) =
           map (new_task act (arg_snapshot a))
             (vms_to_reset cfg lvl (arg_zone a) (arg_team a) (arg_vm a))"
    by (simp add: plan_reset_def)
qed

text \<open>
  Scope TEAM without \<^verbatim>\<open>--team\<close>: the usage error of \<^verbatim>\<open>main\<close>.
\<close>

theorem plan_validation_in_main_witness:
  "ResetLevel_of (arg_level team_args) = Some TEAM \<and> arg_team team_args = None
   \<and> main dry_environment team_args = ParserError ''--team is required for team-level reset''"
proof -
  have l: "ResetLevel_of (arg_level team_args) = Some TEAM"
    by (simp add: team_args_def ResetLevel_of_def)
  have a: "ResetAction_of (arg_action team_args) = Some SNAPSHOT_REVERT"
    by (simp add: team_args_def ResetAction_of_def)
  have t: "arg_team team_args = None"
    by (simp add: team_args_def)
  from plan_validation_in_main[OF l a, of dry_environment blue_topology "''op''"] t
  obtain msg where "main dry_environment team_args = ParserError msg" by blast
  moreover have "main dry_environment team_args = ParserError ''--team is required for team-level reset''"
    by (simp add: main_def team_args_def truthy_str_def ResetLevel_of_def ResetAction_of_def)
  ultimately show ?thesis using l t by simp
qed


section \<open>Executing an operation without tasks\<close>

lemma execute_trace_empty:
  "tasks opn = [] \<Longrightarrow> execute_trace sch ad opn n cb = [initial_state sch opn n]"
  unfolding execute_trace_def
  by (rule gather_trace_stuck) (simp add: enabled_def initial_state_def)

text \<open>
  The progress of an operation without tasks is \<open>0\<close>, before and after \<^verbatim>\<open>execute\<close>:
  the property returns \<^verbatim>\<open>0.0\<close> when the task list is empty.
\<close>

theorem execute_empty_counterexample:
  "execute unit_scheduler (Some (\<lambda>i c. None)) (Some empty_operation) 5 False =
     Returns (empty_operation\<lparr>op_start_time := Some 0, op_end_time := Some 1\<rparr>)
   \<and> operation_progress (empty_operation\<lparr>op_start_time := Some 0, op_end_time := Some 1\<rparr>) = 0"
  by (simp add: execute_def execute_trace_empty empty_operation_def initial_state_def
      unit_scheduler_def operation_progress_def)

text \<open>
  Claim C5, amended. For every operation with zero tasks and every concurrency limit that
  the semaphore accepts (not negative), \<^verbatim>\<open>execute\<close> returns at once: the event loop takes
  no step, no adapter call is made, the operation comes back with only its start and end
  times set, its derived status is \<open>empty\<close> and its derived progress is \<open>0\<close> percent.
\<close>

theorem execute_empty_operation:
  assumes "tasks opn = []" and "0 \<le> parallel"
  shows "execute sch ad (Some opn) parallel cb =
           Returns (opn\<lparr>op_start_time := Some (clock sch 0), op_end_time := Some (clock sch 1)\<rparr>)
       \<and> operation_status (opn\<lparr>op_start_time := Some (clock sch 0), op_end_time := Some (clock sch 1)\<rparr>) = ''empty''
       \<and> operation_progress (opn\<lparr>op_start_time := Some (clock sch 0), op_end_time := Some (clock sch 1)\<rparr>) = 0
       \<and> map calls (execute_trace sch ad opn (nat parallel) cb) = [[]]"
  using assms
  by (simp add: execute_def execute_trace_empty initial_state_def operation_status_def
      operation_progress_def)

text \<open>
  An empty operation under a limit of \<open>0\<close>.
\<close>

theorem execute_empty_operation_witness:
  "tasks empty_operation = [] \<and>
   execute unit_scheduler None (Some empty_operation) 0 True =
     Returns (empty_operation\<lparr>op_start_time := Some 0, op_end_time := Some 1\<rparr>)"
proof -
  have e: "tasks empty_operation = []" by (simp add: empty_operation_def)
  from execute_empty_operation[OF e, of 0 unit_scheduler None True] e
  show ?thesis by (simp add: unit_scheduler_def)
qed


section \<open>The exit status\<close>

text \<open>
  A plan that matches no VM: \<^verbatim>\<open>main\<close> prints that nothing matched and returns \<open>1\<close>,
  while the derived status of the operation is \<open>empty\<close>.
\<close>

theorem exit_status_empty_counterexample:
  "main dry_environment ghost_args =
     Exit 1 (Some \<lparr>operation_id = ''20260101-000000'', level = VM, op_action = POWER_CYCLE, tasks = [],
                    op_start_time = None, op_end_time = None\<rparr>)
   \<and> operation_status \<lparr>operation_id = ''20260101-000000'', level = VM, op_action = POWER_CYCLE,
        tasks = [], op_start_time = None, op_end_time = None\<rparr> = ''empty''"
  by (simp add: main_def ghost_args_def dry_environment_def ResetLevel_of_def ResetAction_of_def
      truthy_str_def plan_reset_def vms_to_reset_VM all_vms_def blue_topology_def operation_status_def)

text \<open>
  A dry run over a zone of two VMs.
\<close>

lemma full_run: "main dry_environment full_args = Exit 0 (Some full_done)"
  by code_simp

text \<open>
  Claim C9, amended. For every run of \<^verbatim>\<open>main\<close> that plans an operation, is not declined
  at the confirmation prompt (a plan without tasks is never prompted) and ends without an
  exception (exit status other than \<open>2\<close>), the exit status is \<open>0\<close> if and only if the
  derived status of the operation is \<open>completed\<close>. An operation without tasks (status
  \<open>empty\<close>) gives exit status \<open>1\<close>, and so does any failed task.
\<close>

theorem exit_status_contract:
  assumes "main env a = Exit code (Some opn)"
    and "code \<noteq> 2"
    and "\<not> declined env a"
  shows "(code = 0 \<longleftrightarrow> operation_status opn = ''completed'')
       \<and> (operation_status opn = ''empty'' \<longrightarrow> code = 1)
       \<and> ((\<exists>t \<in> set (tasks opn). status t = ''failed'') \<longrightarrow> code = 1)"
proof -
  have failed: "operation_status opn \<noteq> ''completed''" if "\<exists>t \<in> set (tasks opn). status t = ''failed''"
    using that by (auto simp: operation_status_def any_status_iff)
  have empty: "operation_status x = ''empty''" if "tasks x = []" for x
    using that by (simp add: operation_status_def)
  from assms have "(code = 0 \<longleftrightarrow> operation_status opn = ''completed'') \<and> (code = 0 \<or> code = 1)"
    by (auto simp: main_def declined_def planned_def Let_def empty
        split: option.splits if_splits sum.splits outcome.splits)
  then show ?thesis using failed by auto
qed

text \<open>
  A run without \<^verbatim>\<open>--yes\<close> or \<^verbatim>\<open>--dry-run\<close>, with the answer \<^verbatim>\<open>n\<close> at hand, whose plan
  matches no VM: it is not prompted and returns \<open>1\<close>.
\<close>

lemma bare_ghost_run: "main decline_environment bare_ghost_args = Exit 1 (Some ghost_plan)"
  by code_simp

text \<open>
  The dry run above ends with every task completed and exit status \<open>0\<close>; the run whose
  plan is empty ends with exit status \<open>1\<close>, with no flag and the answer \<^verbatim>\<open>n\<close>.
\<close>

theorem exit_status_contract_witness:
  "main dry_environment full_args = Exit 0 (Some full_done)
   \<and> \<not> declined dry_environment full_args
   \<and> operation_status full_done = ''completed''
   \<and> main decline_environment bare_ghost_args = Exit 1 (Some ghost_plan)
   \<and> \<not> declined decline_environment bare_ghost_args
   \<and> operation_status ghost_plan \<noteq> ''completed''"
proof -
  have d1: "\<not> declined dry_environment full_args"
    by (simp add: declined_def full_args_def split: option.splits)
  have d2: "\<not> declined decline_environment bare_ghost_args"
    by code_simp
  from exit_status_contract[OF full_run _ d1]
  have s1: "operation_status full_done = ''completed''" by simp
  from exit_status_contract[OF bare_ghost_run _ d2]
  have s2: "operation_status ghost_plan \<noteq> ''completed''" by simp
  from s1 s2 d1 d2 show ?thesis using full_run bare_ghost_run by simp
qed

section \<open>Isolation of a failing task\<close>

text \<open>
  The concurrency limit is passed unchecked to the semaphore. With two tasks and an
  adapter whose call raises for the second only, under the limit \<open>-1\<close> the
  \<^verbatim>\<open>ValueError\<close> of the semaphore reaches the caller of \<^verbatim>\<open>execute\<close>, and under the
  limit \<open>0\<close> \<^verbatim>\<open>execute\<close> never returns: no task runs to completed.
\<close>

theorem one_failure_limit_counterexample:
  "map (dispatch (Some flaky_adapter)) (tasks (blue_plan POWER_CYCLE)) =
     [Call (power_cycle (Some ''a'')), Call (power_cycle (Some ''b''))]
   \<and> flaky_adapter 0 (power_cycle (Some ''a'')) = None
   \<and> flaky_adapter 1 (power_cycle (Some ''b'')) = Some ''VM not found: b''
   \<and> execute unit_scheduler (Some flaky_adapter) (Some (blue_plan POWER_CYCLE)) (- 1) True =
       Raises ''Semaphore initial value must be >= 0''
   \<and> execute unit_scheduler (Some flaky_adapter) (Some (blue_plan POWER_CYCLE)) 0 True = Hangs"
proof -
  have "tasks (blue_plan POWER_CYCLE) \<noteq> []" by (simp add: blue_plan_tasks)
  then show ?thesis
    by (simp add: execute_negative_limit execute_zero_limit blue_plan_tasks dispatch_def
        flaky_adapter_def)
qed

text \<open>
  Claim C2, amended. Take an operation of \<open>N\<close> tasks each of which is dispatched to the
  adapter, where the adapter call raises for the task at position \<open>k\<close> and for no other,
  and a concurrency limit of at least \<open>1\<close>. Whatever the order in which the event loop
  runs the coroutines, \<^verbatim>\<open>execute\<close> returns the operation (no exception reaches its
  caller); task \<open>k\<close> is \<open>failed\<close> and carries the message of its exception as error; each
  of the other \<open>N - 1\<close> tasks is \<open>completed\<close>.
\<close>

theorem one_failure_isolated:
  assumes "0 < parallel" and "k < length (tasks opn)"
    and "\<forall>i < length (tasks opn). \<exists>c. dispatch (Some f) (tasks opn ! i) = Call c \<and> ((f i c \<noteq> None) = (i = k))"
  shows "\<exists>fin. execute sch (Some f) (Some opn) parallel cb = Returns fin
           \<and> length (tasks fin) = length (tasks opn)
           \<and> status (tasks fin ! k) = ''failed''
           \<and> (\<exists>c m. dispatch (Some f) (tasks opn ! k) = Call c \<and> f k c = Some m \<and> error (tasks fin ! k) = Some m)
           \<and> (\<forall>i < length (tasks opn). i \<noteq> k \<longrightarrow> status (tasks fin ! i) = ''completed'')"
proof -
  let ?s = "last (execute_trace sch (Some f) opn (nat parallel) cb)"
  let ?fin = "(operation ?s)\<lparr>op_end_time := Some (clock sch (ticks ?s))\<rparr>"
  note fin = execute_final[OF assms(1), where sch = sch and ad = "Some f" and opn = opn and cb = cb]
  have ts: "tasks ?fin = tasks (operation ?s)" by simp
  from assms(2,3) obtain c where c: "dispatch (Some f) (tasks opn ! k) = Call c" "f k c \<noteq> None"
    by blast
  then obtain m where m: "f k c = Some m" by blast
  have "status (tasks ?fin ! k) = ''failed''"
    using related_Done_Call(1)[OF fin(3)[OF assms(2)] c(1)] c(2) by simp
  moreover have "error (tasks ?fin ! k) = Some m"
    using related_Done_Call(2)[OF fin(3)[OF assms(2)] c(1) c(2)] m by simp
  moreover have "status (tasks ?fin ! i) = ''completed''" if "i < length (tasks opn)" "i \<noteq> k" for i
  proof -
    from assms(3) that obtain d where d: "dispatch (Some f) (tasks opn ! i) = Call d" "f i d = None"
      by blast
    show ?thesis
      using related_Done_Call(1)[OF fin(3)[OF that(1)] d(1)] d(2) by simp
  qed
  ultimately show ?thesis
    using fin(1,2) c(1) m by (intro exI[of _ ?fin]) (simp only: ts, blast)
qed

text \<open>
  Two tasks, the call for the second raising \<^verbatim>\<open>VM not found: b\<close>.
\<close>

theorem one_failure_isolated_witness:
  "(0::int) < 5 \<and> 1 < length (tasks (blue_plan POWER_CYCLE))
   \<and> execute unit_scheduler (Some flaky_adapter) (Some (blue_plan POWER_CYCLE)) 5 True = Returns flaky_done
   \<and> map status (tasks flaky_done) = [''completed'', ''failed'']
   \<and> error (tasks flaky_done ! 1) = Some ''VM not found: b''"
proof -
  have p: "(0::int) < 5" by simp
  have k: "1 < length (tasks (blue_plan POWER_CYCLE))" by (simp add: blue_plan_tasks)
  have h: "\<forall>i < length (tasks (blue_plan POWER_CYCLE)).
      \<exists>c. dispatch (Some flaky_adapter) (tasks (blue_plan POWER_CYCLE) ! i) = Call c
          \<and> ((flaky_adapter i c \<noteq> None) = (i = 1))"
    by (auto simp: blue_plan_tasks less_Suc_eq dispatch_def flaky_adapter_def)
  from one_failure_isolated[OF p k h, of unit_scheduler True]
  obtain fin where fin: "execute unit_scheduler (Some flaky_adapter) (Some (blue_plan POWER_CYCLE)) 5 True = Returns fin"
    and "status (tasks fin ! 1) = ''failed''"
    and "\<forall>i < length (tasks (blue_plan POWER_CYCLE)). i \<noteq> 1 \<longrightarrow> status (tasks fin ! i) = ''completed''"
    by blast
  moreover from fin flaky_run have "fin = flaky_done" by simp
  ultimately show ?thesis using k by (simp add: flaky_done_def)
qed

section \<open>Actions beyond revert and power cycle\<close>

text \<open>
  Under the limit \<open>0\<close> the two REBUILD tasks of the example plan are never admitted:
  \<^verbatim>\<open>execute\<close> does not return and both tasks stay \<open>pending\<close>, none is marked failed.
\<close>

theorem unsupported_action_limit_counterexample:
  "map action (tasks (blue_plan REBUILD)) = [REBUILD, REBUILD]
   \<and> execute unit_scheduler (Some flaky_adapter) (Some (blue_plan REBUILD)) 0 True = Hangs
   \<and> map (\<lambda>s. map status (tasks (operation s)))
        (execute_trace unit_scheduler (Some flaky_adapter) (blue_plan REBUILD) 0 True) =
       [[''pending'', ''pending'']]"
  by code_simp

text \<open>
  Claim C10, amended. The enum of actions has the two further members CHECKPOINT_RESTORE
  and REBUILD. The planner accepts them: it returns one pending task per VM of the
  resolved scope, each carrying the action. When an operation is executed under a
  concurrency limit of at least \<open>1\<close>, \<^verbatim>\<open>execute\<close> returns, and every task that carries
  such an action is \<open>failed\<close> with the error \<^verbatim>\<open>Unsupported action: \<close> followed by the
  name of the member; at no moment of the execution has an adapter call been dispatched
  for it.
\<close>

theorem unsupported_action_fails:
  assumes "act = CHECKPOINT_RESTORE \<or> act = REBUILD" and "0 < parallel"
  shows "(map vm_name (tasks (plan_reset cfg oid lvl act snap zone_f team_f vm_f)) =
            map entry_name (vms_to_reset cfg lvl zone_f team_f vm_f)
          \<and> (\<forall>t \<in> set (tasks (plan_reset cfg oid lvl act snap zone_f team_f vm_f)).
                action t = act \<and> status t = ''pending''))
       \<and> (\<exists>fin. execute sch ad (Some opn) parallel cb = Returns fin
             \<and> length (tasks fin) = length (tasks opn)
             \<and> (\<forall>i < length (tasks opn). action (tasks opn ! i) = act \<longrightarrow>
                   status (tasks fin ! i) = ''failed''
                 \<and> error (tasks fin ! i) = Some (''Unsupported action: '' @ str_ResetAction act)
                 \<and> (\<forall>s \<in> set (execute_trace sch ad opn (nat parallel) cb). i \<notin> fst ` set (calls s))))"
proof (rule conjI)
  show "map vm_name (tasks (plan_reset cfg oid lvl act snap zone_f team_f vm_f)) =
            map entry_name (vms_to_reset cfg lvl zone_f team_f vm_f)
          \<and> (\<forall>t \<in> set (tasks (plan_reset cfg oid lvl act snap zone_f team_f vm_f)).
                action t = act \<and> status t = ''pending'')"
    using plan_reset_tasks by (auto simp: plan_reset_def new_task_def)
next
  let ?s = "last (execute_trace sch ad opn (nat parallel) cb)"
  let ?fin = "(operation ?s)\<lparr>op_end_time := Some (clock sch (ticks ?s))\<rparr>"
  note fin = execute_final[OF assms(2), where sch = sch and ad = ad and opn = opn and cb = cb]
  have "status (tasks ?fin ! i) = ''failed''
      \<and> error (tasks ?fin ! i) = Some (''Unsupported action: '' @ str_ResetAction act)
      \<and> (\<forall>s \<in> set (execute_trace sch ad opn (nat parallel) cb). i \<notin> fst ` set (calls s))"
    if i: "i < length (tasks opn)" and a: "action (tasks opn ! i) = act" for i
  proof -
    from a assms(1) have d: "dispatch ad (tasks opn ! i) = Raise (''Unsupported action: '' @ str_ResetAction act)"
      using dispatch_unsupported[of "tasks opn ! i" ad] by simp
    have "i \<notin> fst ` set (calls s)" if "s \<in> set (execute_trace sch ad opn (nat parallel) cb)" for s
    proof
      assume "i \<in> fst ` set (calls s)"
      then obtain c where "(i, c) \<in> set (calls s)" by auto
      moreover from that have "tracks ad (tasks opn) (nat parallel) s"
        using execute_trace_tracks by blast
      ultimately have "dispatch ad (tasks opn ! i) = Call c" by (auto simp: tracks_def)
      with d show False by simp
    qed
    then show ?thesis
      using related_Done_Raise[OF fin(3)[OF i] d] by simp
  qed
  then show "\<exists>fin. execute sch ad (Some opn) parallel cb = Returns fin
             \<and> length (tasks fin) = length (tasks opn)
             \<and> (\<forall>i < length (tasks opn). action (tasks opn ! i) = act \<longrightarrow>
                   status (tasks fin ! i) = ''failed''
                 \<and> error (tasks fin ! i) = Some (''Unsupported action: '' @ str_ResetAction act)
                 \<and> (\<forall>s \<in> set (execute_trace sch ad opn (nat parallel) cb). i \<notin> fst ` set (calls s)))"
    using fin(1,2) by (intro exI[of _ ?fin]) simp
qed

text \<open>
  A plan of two REBUILD tasks, executed.
\<close>

theorem unsupported_action_fails_witness:
  "(0::int) < 5
   \<and> map action (tasks (blue_plan REBUILD)) = [REBUILD, REBUILD]
   \<and> execute unit_scheduler (Some flaky_adapter) (Some (blue_plan REBUILD)) 5 True = Returns rebuild_done
   \<and> map status (tasks rebuild_done) = [''failed'', ''failed'']
   \<and> map error (tasks rebuild_done) =
        [Some ''Unsupported action: ResetAction.REBUILD'', Some ''Unsupported action: ResetAction.REBUILD'']"
proof -
  have p: "(0::int) < 5" by simp
  have a: "REBUILD = CHECKPOINT_RESTORE \<or> REBUILD = REBUILD" by simp
  from unsupported_action_fails[OF a p, of blue_topology "''op''" FULL None None None None
      unit_scheduler "Some flaky_adapter" "blue_plan REBUILD" True]
  obtain fin where fin: "execute unit_scheduler (Some flaky_adapter) (Some (blue_plan REBUILD)) 5 True = Returns fin"
    and "\<forall>i < length (tasks (blue_plan REBUILD)). action (tasks (blue_plan REBUILD) ! i) = REBUILD \<longrightarrow>
           status (tasks fin ! i) = ''failed''"
    by blast
  moreover from fin rebuild_run have "fin = rebuild_done" by simp
  ultimately show ?thesis by (simp add: rebuild_done_def blue_plan_tasks)
qed

section \<open>The invariant of a task\<close>

text \<open>
  An adapter whose exceptions carry no message (\<^verbatim>\<open>str(e)\<close> is the empty string): both
  tasks end \<open>failed\<close> with the empty string as error, so the error of a failed task is
  empty and the invariant as worded does not hold of it.
\<close>

lemma silent_run:
  "execute unit_scheduler (Some silent_adapter) (Some (blue_plan POWER_CYCLE)) 5 True = Returns silent_done"
  by code_simp

theorem task_invariant_counterexample:
  "execute unit_scheduler (Some silent_adapter) (Some (blue_plan POWER_CYCLE)) 5 True = Returns silent_done
   \<and> status (tasks silent_done ! 0) = ''failed''
   \<and> error (tasks silent_done ! 0) = Some []
   \<and> \<not> task_invariant (tasks silent_done ! 0)"
  using silent_run by (simp add: silent_done_def task_invariant_def truthy_str_def)

text \<open>
  Claim C7, amended. For an operation as the planner returns it, at plan time, in every
  state the event loop goes through during \<^verbatim>\<open>execute\<close>, in every operation handed to
  the progress callback and in the operation \<^verbatim>\<open>execute\<close> returns, every task has its
  end time set exactly when its status is \<open>completed\<close> or \<open>failed\<close>, and its error set
  (not \<^verbatim>\<open>None\<close>) exactly when its status is \<open>failed\<close>; when every exception of the
  adapter has a message, the error is moreover a non-empty string exactly when the
  status is \<open>failed\<close>. In the returned operation every task has its end time set,
  whatever its outcome. The marking of a task as completed or failed, the
  \<^verbatim>\<open>finally\<close> that sets the end time and the callback run without suspension, so no
  state in between exists.
\<close>

theorem task_invariant_throughout:
  "(\<forall>t \<in> set (tasks (plan_reset cfg oid lvl act snap zone_f team_f vm_f)). task_sound ad t)
   \<and> (\<forall>s \<in> set (execute_trace sch ad (plan_reset cfg oid lvl act snap zone_f team_f vm_f) n cb).
        (\<forall>t \<in> set (tasks (operation s)). task_sound ad t)
      \<and> (\<forall>seen \<in> set (reported s). \<forall>t \<in> set (tasks seen). task_sound ad t))
   \<and> (\<forall>fin. execute sch ad (Some (plan_reset cfg oid lvl act snap zone_f team_f vm_f)) parallel cb
              = Returns fin \<longrightarrow>
        (\<forall>t \<in> set (tasks fin). task_sound ad t \<and> end_time t \<noteq> None))"
proof (intro conjI allI impI ballI)
  let ?p = "plan_reset cfg oid lvl act snap zone_f team_f vm_f"
  note cons = execute_trace_consistent[OF plan_reset_fresh]
  show "task_sound ad t" if "t \<in> set (tasks ?p)" for t
    using plan_reset_tasks[OF that]
    by (simp add: task_sound_def task_invariant_set_def task_invariant_def truthy_str_def)
  show "task_sound ad t" if "s \<in> set (execute_trace sch ad ?p n cb)" "t \<in> set (tasks (operation s))" for s t
    using cons that by (auto simp: consistent_def)
  show "task_sound ad t"
    if "s \<in> set (execute_trace sch ad ?p n cb)" "seen \<in> set (reported s)" "t \<in> set (tasks seen)"
    for s seen t
    using cons that by (auto simp: consistent_def)
  fix fin t
  assume ret: "execute sch ad (Some ?p) parallel cb = Returns fin" and t: "t \<in> set (tasks fin)"
  let ?s = "last (execute_trace sch ad ?p (nat parallel) cb)"
  have c: "consistent ad (tasks ?p) (nat parallel) ?s"
    using cons execute_trace_last_in by blast
  from t execute_Returns(1)[OF ret] have t': "t \<in> set (tasks (operation ?s))" by simp
  with c show "task_sound ad t" by (simp add: consistent_def)
  from t' obtain i where i: "i < length (tasks (operation ?s))" "t = tasks (operation ?s) ! i"
    by (auto simp: in_set_conv_nth)
  from c i have "i < length (frames ?s)" "related ad i (tasks ?p ! i) (frames ?s ! i) t"
    by (simp_all add: consistent_def tracks_def)
  moreover from this(1) execute_Returns(2)[OF ret] have "frames ?s ! i = Done"
    by (simp add: list_all_length)
  ultimately show "end_time t \<noteq> None" by (simp add: related_def)
qed

text \<open>
  The run with one failing call, whose exception has a message: both tasks of the
  returned operation satisfy the invariant as worded, and the failed one has its end
  time.
\<close>

theorem task_invariant_throughout_witness:
  "messages_nonempty (Some flaky_adapter)
   \<and> execute unit_scheduler (Some flaky_adapter)
       (Some (plan_reset blue_topology ''op'' FULL POWER_CYCLE None None None None)) 5 True = Returns flaky_done
   \<and> task_invariant (tasks flaky_done ! 0) \<and> task_invariant (tasks flaky_done ! 1)
   \<and> task_invariant_set (tasks flaky_done ! 1)
   \<and> end_time (tasks flaky_done ! 1) \<noteq> None"
proof -
  have msgs: "messages_nonempty (Some flaky_adapter)"
    by (simp add: messages_nonempty_def invoke_def flaky_adapter_def)
  have run: "execute unit_scheduler (Some flaky_adapter)
     (Some (plan_reset blue_topology ''op'' FULL POWER_CYCLE None None None None)) 5 True = Returns flaky_done"
    using flaky_run by (simp add: blue_plan_def)
  from task_invariant_throughout[of blue_topology "''op''" FULL POWER_CYCLE None None None None
      "Some flaky_adapter" unit_scheduler 5 True 5] run
  have "\<forall>t \<in> set (tasks flaky_done). task_sound (Some flaky_adapter) t \<and> end_time t \<noteq> None" by blast
  with msgs have "\<forall>t \<in> set (tasks flaky_done). task_invariant t \<and> task_invariant_set t \<and> end_time t \<noteq> None"
    by (simp add: task_sound_def)
  then show ?thesis using run msgs by (simp add: flaky_done_def)
qed

section \<open>Progress\<close>

text \<open>
  After the run with one failing call every task is in a terminal state, and the progress
  is \<open>50\<close> percent: only completed tasks count.
\<close>

theorem progress_terminal_counterexample:
  "execute unit_scheduler (Some flaky_adapter) (Some (blue_plan POWER_CYCLE)) 5 True = Returns flaky_done
   \<and> map status (tasks flaky_done) = [''completed'', ''failed'']
   \<and> operation_progress flaky_done = 50"
  using flaky_run by (simp add: flaky_done_def operation_progress_def)

text \<open>
  Claim C6, amended. Over the run of \<^verbatim>\<open>execute\<close> on an operation as the planner returns
  it, the derived progress never decreases from one state of the event loop to a later
  one, whatever the order in which the coroutines run. In every such state the progress
  equals \<open>100\<close> percent if and only if the operation has at least one task and every task
  is \<open>completed\<close>.
\<close>

theorem progress_monotone:
  "sorted (map (\<lambda>s. operation_progress (operation s))
       (execute_trace sch ad (plan_reset cfg oid lvl act snap zone_f team_f vm_f) n cb))
   \<and> (\<forall>s \<in> set (execute_trace sch ad (plan_reset cfg oid lvl act snap zone_f team_f vm_f) n cb).
        (operation_progress (operation s) = 100) =
        (tasks (operation s) \<noteq> [] \<and> (\<forall>t \<in> set (tasks (operation s)). status t = ''completed'')))"
proof (rule conjI)
  let ?p = "plan_reset cfg oid lvl act snap zone_f team_f vm_f"
  have fresh: "\<forall>t0 \<in> set (tasks ?p). status t0 = ''pending''"
    using plan_reset_tasks by blast
  show "sorted (map (\<lambda>s. operation_progress (operation s)) (execute_trace sch ad ?p n cb))"
    unfolding execute_trace_def
  proof (rule gather_trace_sorted[where P = "tracks ad (tasks ?p) n"])
    show "tracks ad (tasks ?p) n (initial_state sch ?p n)" by (rule tracks_initial)
  next
    fix s e k
    assume "tracks ad (tasks ?p) n s" "e \<in> set (enabled s)"
    then show "tracks ad (tasks ?p) n (fire sch ad cb e (s\<lparr>turns := k\<rparr>))" by (rule tracks_fire)
  next
    fix s e k
    assume "tracks ad (tasks ?p) n s" "e \<in> set (enabled s)"
    then show "operation_progress (operation s)
           \<le> operation_progress (operation (fire sch ad cb e (s\<lparr>turns := k\<rparr>)))"
      using fresh by (rule fire_progress_mono)
  qed
  show "\<forall>s \<in> set (execute_trace sch ad ?p n cb).
        (operation_progress (operation s) = 100) =
        (tasks (operation s) \<noteq> [] \<and> (\<forall>t \<in> set (tasks (operation s)). status t = ''completed''))"
    by (simp add: progress_full)
qed

text \<open>
  A dry run of two tasks: the progress goes through \<open>0, 0, 0, 50, 100\<close>.
\<close>

theorem progress_monotone_witness:
  "map (\<lambda>s. operation_progress (operation s))
     (execute_trace unit_scheduler (Some (\<lambda>i c. None))
        (plan_reset blue_topology ''op'' FULL POWER_CYCLE None None None None) 5 True) =
   [0, 0, 0, 50, 100]
   \<and> sorted [0, 0, 0, 50, 100 :: rat]"
proof -
  from progress_monotone[of unit_scheduler "Some (\<lambda>i c. None)" blue_topology "''op''" FULL POWER_CYCLE
      None None None None 5 True]
  have "sorted (map (\<lambda>s. operation_progress (operation s))
     (execute_trace unit_scheduler (Some (\<lambda>i c. None))
        (plan_reset blue_topology ''op'' FULL POWER_CYCLE None None None None) 5 True))"
    by (rule conjunct1)
  then have "sorted [0, 0, 0, 50, 100 :: rat]" by (simp only: dry_progress)
  then show ?thesis using dry_progress by simp
qed


end
